theory Spec2Isabelle
  imports Main "HOL-Library.Word"
begin

section \<open>The allocator of \<^verbatim>\<open>src/main.c\<close> as a state transformer\<close>

text \<open>
  The program is modelled for an LP64 Unix target: \<^verbatim>\<open>size_t\<close> and pointers are 64-bit
  words whose arithmetic wraps, the null pointer is the word \<open>0\<close> and \<^verbatim>\<open>(void *) -1\<close>
  is the word \<open>-1\<close>.  The global lock is left out: the model is the sequential behaviour
  of one call at a time.
\<close>

type_synonym ptr = "64 word"
type_synonym size_t = "64 word"

abbreviation NULL :: ptr where
  "NULL \<equiv> 0"

text \<open>
  \<^verbatim>\<open>union header\<close>: the three fields of the struct \<^verbatim>\<open>s\<close>.  The flag \<^verbatim>\<open>is_free\<close> is only
  ever assigned 0 or 1 and only ever tested for being non-zero, so it is a \<open>bool\<close>.
\<close>

record header_t =
  s_size :: size_t
  s_is_free :: bool
  s_next :: ptr

text \<open>
  \<^verbatim>\<open>sizeof(header_t)\<close> on LP64: the struct is 8 + 4 (+ 4 padding) + 8 = 24 bytes, the
  16-byte \<^verbatim>\<open>stub\<close> is smaller, so the union has 24 bytes.
\<close>

definition sizeof_header_t :: size_t where
  "sizeof_header_t = 24"

text \<open>
  The state: the globals \<^verbatim>\<open>head\<close> and \<^verbatim>\<open>tail\<close>, the header objects in memory by address,
  the payload bytes by address, and the program break with the largest break the
  operating system is willing to grant.  Headers and payload bytes are kept apart: a
  write through a payload pointer does not change a header, which is what the program
  relies on from callers that stay inside their payloads.
\<close>

record heap_state =
  head :: ptr
  tail :: ptr
  hdrs :: "ptr \<Rightarrow> header_t"
  mem :: "ptr \<Rightarrow> 8 word"
  brk :: ptr
  brk_limit :: ptr

subsection \<open>The environment: \<^verbatim>\<open>sbrk\<close>, \<^verbatim>\<open>memset\<close>, \<^verbatim>\<open>memcpy\<close>\<close>

text \<open>
  Modelled from the spec: \<^verbatim>\<open>sbrk\<close> is the operating system's region growth primitive,
  \<open>grow(delta: signed integer) \<rightarrow> previous boundary | FAILURE\<close>: the increment is read as
  a signed number, a zero increment queries the boundary without side effects, and a
  request that would move the boundary below address 0 or beyond the limit fails with
  \<^verbatim>\<open>(void *) -1\<close> and changes nothing.
\<close>

definition sbrk_fails :: "64 word \<Rightarrow> heap_state \<Rightarrow> bool" where
  "sbrk_fails increment s \<longleftrightarrow>
     increment \<noteq> 0
     \<and> (uint (brk s) + sint increment < 0
        \<or> uint (brk_limit s) < uint (brk s) + sint increment)"

definition sbrk :: "64 word \<Rightarrow> heap_state \<Rightarrow> ptr \<times> heap_state" where
  "sbrk increment s =
     (if increment = 0 then (brk s, s)
      else if sbrk_fails increment s then (- 1, s)
      else (brk s, s\<lparr>brk := brk s + increment\<rparr>))"

text \<open>
  Modelled from the spec: the C library's \<^verbatim>\<open>memset\<close> and \<^verbatim>\<open>memcpy\<close> on the payload bytes;
  the \<open>n\<close> addresses \<open>p, p + 1, \<dots>\<close> are those whose offset from \<open>p\<close> is below \<open>n\<close>.
\<close>

definition memset :: "ptr \<Rightarrow> 8 word \<Rightarrow> size_t \<Rightarrow> heap_state \<Rightarrow> heap_state" where
  "memset p c n s = s\<lparr>mem := (\<lambda>a. if a - p < n then c else mem s a)\<rparr>"

definition memcpy :: "ptr \<Rightarrow> ptr \<Rightarrow> size_t \<Rightarrow> heap_state \<Rightarrow> heap_state" where
  "memcpy dst src n s =
     s\<lparr>mem := (\<lambda>a. if a - dst < n then mem s (src + (a - dst)) else mem s a)\<rparr>"

subsection \<open>\<^verbatim>\<open>get_free_block\<close> and \<^verbatim>\<open>malloc\<close>\<close>

text \<open>
  The scan follows \<^verbatim>\<open>next\<close> pointers and need not end on a cyclic chain: \<open>None\<close> is
  "does not return".
\<close>

partial_function (option) get_free_block_loop ::
  "(ptr \<Rightarrow> header_t) \<Rightarrow> size_t \<Rightarrow> ptr \<Rightarrow> ptr option" where
  "get_free_block_loop h sz cur =
     (if cur = NULL then Some NULL
      else if s_is_free (h cur) \<and> sz \<le> s_size (h cur) then Some cur
      else get_free_block_loop h sz (s_next (h cur)))"

definition get_free_block :: "size_t \<Rightarrow> heap_state \<Rightarrow> ptr option" where
  "get_free_block sz s = get_free_block_loop (hdrs s) sz (head s)"

text \<open>
  \<^verbatim>\<open>malloc\<close>, with its two ways of handing out a block as functions of their own:
  \<open>malloc_reuse\<close> is the assignment \<^verbatim>\<open>header->s.is_free = 0\<close> of the reuse path,
  \<open>malloc_link\<close> the initialisation of the new header and its linking behind \<^verbatim>\<open>tail\<close>.
\<close>

definition malloc_reuse :: "ptr \<Rightarrow> heap_state \<Rightarrow> heap_state" where
  "malloc_reuse header s =
     s\<lparr>hdrs := (hdrs s)(header := (hdrs s header)\<lparr>s_is_free := False\<rparr>)\<rparr>"

definition malloc_link :: "ptr \<Rightarrow> size_t \<Rightarrow> heap_state \<Rightarrow> heap_state" where
  "malloc_link header sz s =
     (let s1 = s\<lparr>hdrs := (hdrs s)(header := \<lparr>s_size = sz, s_is_free = False, s_next = NULL\<rparr>)\<rparr>;
          s2 = (if head s1 = NULL then s1\<lparr>head := header\<rparr> else s1);
          s3 = (if tail s2 \<noteq> NULL
                then s2\<lparr>hdrs := (hdrs s2)(tail s2 := (hdrs s2 (tail s2))\<lparr>s_next := header\<rparr>)\<rparr>
                else s2)
      in s3\<lparr>tail := header\<rparr>)"

definition malloc :: "size_t \<Rightarrow> heap_state \<Rightarrow> (ptr \<times> heap_state) option" where
  "malloc sz s =
     (if sz = 0 then Some (NULL, s)
      else case get_free_block sz s of
        None \<Rightarrow> None
      | Some header \<Rightarrow>
          if header \<noteq> NULL then Some (header + sizeof_header_t, malloc_reuse header s)
          else (case sbrk (sizeof_header_t + sz) s of
            (block, s1) \<Rightarrow>
              if block = - 1 then Some (NULL, s1)
              else Some (block + sizeof_header_t, malloc_link block sz s1)))"

subsection \<open>\<^verbatim>\<open>free\<close>\<close>

text \<open>
  \<open>free_loop\<close> is the \<^verbatim>\<open>while (tmp)\<close> loop that looks for the block before \<^verbatim>\<open>tail\<close>,
  \<open>free_unlink\<close> the \<^verbatim>\<open>if (head == tail) ... else ...\<close> around it.  The result of the
  shrinking \<^verbatim>\<open>sbrk\<close> call is not looked at by the program.
\<close>

partial_function (option) free_loop :: "heap_state \<Rightarrow> ptr \<Rightarrow> heap_state option" where
  "free_loop s tmp =
     (if tmp = NULL then Some s
      else if s_next (hdrs s tmp) = tail s
      then free_loop
             (s\<lparr>hdrs := (hdrs s)(tmp := (hdrs s tmp)\<lparr>s_next := NULL\<rparr>), tail := tmp\<rparr>)
             (s_next (((hdrs s)(tmp := (hdrs s tmp)\<lparr>s_next := NULL\<rparr>)) tmp))
      else free_loop s (s_next (hdrs s tmp)))"

definition free_unlink :: "heap_state \<Rightarrow> heap_state option" where
  "free_unlink s =
     (if head s = tail s then Some (s\<lparr>head := NULL, tail := NULL\<rparr>)
      else free_loop s (head s))"

definition free :: "ptr \<Rightarrow> heap_state \<Rightarrow> heap_state option" where
  "free block s =
     (if block = NULL then Some s
      else
        let header = block - sizeof_header_t in
        case sbrk 0 s of
          (programbreak, s0) \<Rightarrow>
            if block + s_size (hdrs s0 header) = programbreak
            then (case free_unlink s0 of
                    None \<Rightarrow> None
                  | Some s1 \<Rightarrow>
                      Some (snd (sbrk (0 - sizeof_header_t - s_size (hdrs s1 header)) s1)))
            else Some (s0\<lparr>hdrs := (hdrs s0)(header := (hdrs s0 header)\<lparr>s_is_free := True\<rparr>)\<rparr>))"

subsection \<open>\<^verbatim>\<open>calloc\<close> and \<^verbatim>\<open>realloc\<close>\<close>

definition calloc :: "size_t \<Rightarrow> size_t \<Rightarrow> heap_state \<Rightarrow> (ptr \<times> heap_state) option" where
  "calloc num nsize s =
     (if num = 0 \<or> nsize = 0 then Some (NULL, s)
      else
        let sz = num * nsize in
        if nsize \<noteq> sz div num then Some (NULL, s)
        else (case malloc sz s of
                None \<Rightarrow> None
              | Some (block, s1) \<Rightarrow>
                  if block = NULL then Some (NULL, s1)
                  else Some (block, memset block 0 sz s1)))"

definition realloc :: "ptr \<Rightarrow> size_t \<Rightarrow> heap_state \<Rightarrow> (ptr \<times> heap_state) option" where
  "realloc block sz s =
     (if block = NULL \<or> sz = 0 then malloc sz s
      else
        let header = block - sizeof_header_t in
        if sz \<le> s_size (hdrs s header) then Some (block, s)
        else (case malloc sz s of
                None \<Rightarrow> None
              | Some (ret, s1) \<Rightarrow>
                  if ret \<noteq> NULL
                  then (case free block (memcpy ret block (s_size (hdrs s1 header)) s1) of
                          None \<Rightarrow> None
                        | Some s2 \<Rightarrow> Some (ret, s2))
                  else Some (ret, s1)))"

section \<open>Well-formed heaps\<close>

text \<open>
  \<open>path h a xs\<close>: following \<^verbatim>\<open>next\<close> from the pointer \<open>a\<close> visits exactly the headers \<open>xs\<close>,
  none of them null, and then reaches the null pointer.
\<close>

primrec path :: "(ptr \<Rightarrow> header_t) \<Rightarrow> ptr \<Rightarrow> ptr list \<Rightarrow> bool" where
  "path h a [] = (a = NULL)"
| "path h a (x # xs) = (a = x \<and> x \<noteq> NULL \<and> path h (s_next (h x)) xs)"

text \<open>
  The chain invariant of the spec, for the list \<open>xs\<close> of the blocks that exist, in chain
  order: the chain from \<^verbatim>\<open>head\<close> is \<open>xs\<close> and ends after \<^verbatim>\<open>tail\<close>, the last block; with no
  block \<^verbatim>\<open>head\<close> and \<^verbatim>\<open>tail\<close> are null.
\<close>

definition chain_wf :: "heap_state \<Rightarrow> ptr list \<Rightarrow> bool" where
  "chain_wf s xs \<longleftrightarrow>
     path (hdrs s) (head s) xs \<and> tail s = (if xs = [] then NULL else last xs)"

text \<open>
  A size is valid when the request \<^verbatim>\<open>sizeof(header_t) + size\<close> that \<^verbatim>\<open>malloc\<close> passes to
  \<^verbatim>\<open>sbrk\<close> does not wrap around and is a positive signed increment.
\<close>

definition valid_size :: "size_t \<Rightarrow> bool" where
  "valid_size n \<longleftrightarrow> uint sizeof_header_t + uint n < 2 ^ 63"

text \<open>
  The placement of the blocks: the address just behind the payload of a block, as a
  number, and \<open>tiles h b xs e\<close>: the blocks \<open>xs\<close> lie one behind the other from address \<open>b\<close>
  to address \<open>e\<close>, each of a valid size.
\<close>

definition block_end :: "(ptr \<Rightarrow> header_t) \<Rightarrow> ptr \<Rightarrow> int" where
  "block_end h x = uint x + uint sizeof_header_t + uint (s_size (h x))"

fun tiles :: "(ptr \<Rightarrow> header_t) \<Rightarrow> int \<Rightarrow> ptr list \<Rightarrow> int \<Rightarrow> bool" where
  "tiles h b [] e = (b = e)"
| "tiles h b (x # xs) e =
     (uint x = b \<and> valid_size (s_size (h x)) \<and> tiles h (block_end h x) xs e)"

text \<open>
  The invariant that the proofs carry: the chain is well formed, its blocks lie one
  behind the other and end at the break, the break is not null and within its limit,
  and the limit lies in the lower half of the address space, where the signed increment
  of \<^verbatim>\<open>sbrk\<close> can reach it.
\<close>

definition heap_inv :: "heap_state \<Rightarrow> ptr list \<Rightarrow> bool" where
  "heap_inv s xs \<longleftrightarrow>
     chain_wf s xs
     \<and> tiles (hdrs s) (if xs = [] then uint (brk s) else uint (hd xs)) xs (uint (brk s))
     \<and> brk s \<noteq> NULL \<and> brk s \<le> brk_limit s \<and> uint (brk_limit s) < 2 ^ 63"

text \<open>The result of the scan of \<^verbatim>\<open>get_free_block\<close> on a chain given as a list.\<close>

fun first_fit :: "(ptr \<Rightarrow> header_t) \<Rightarrow> size_t \<Rightarrow> ptr list \<Rightarrow> ptr" where
  "first_fit h sz [] = NULL"
| "first_fit h sz (x # xs) =
     (if s_is_free (h x) \<and> sz \<le> s_size (h x) then x else first_fit h sz xs)"

text \<open>
  The reachable states: an empty heap whose break is not null, within its limit and in
  the lower half of the address space, and every state that a call with valid arguments
  returns from a reachable state.  Valid arguments are valid sizes and the payload
  pointers \<open>x + sizeof_header_t\<close> of the blocks \<open>x\<close> of the chain (a null pointer makes
  \<^verbatim>\<open>free\<close> return at once and turns \<^verbatim>\<open>realloc\<close> into \<^verbatim>\<open>malloc\<close>).  The caller may write any
  bytes into the payloads between calls.
\<close>

inductive reachable :: "heap_state \<Rightarrow> bool" where
  start: "head s = NULL \<Longrightarrow> tail s = NULL \<Longrightarrow> brk s \<noteq> NULL \<Longrightarrow> brk s \<le> brk_limit s
            \<Longrightarrow> uint (brk_limit s) < 2 ^ 63 \<Longrightarrow> reachable s"
| after_malloc: "reachable s \<Longrightarrow> valid_size n \<Longrightarrow> malloc n s = Some (p, s') \<Longrightarrow> reachable s'"
| after_free: "reachable s \<Longrightarrow> chain_wf s xs \<Longrightarrow> x \<in> set xs
            \<Longrightarrow> free (x + sizeof_header_t) s = Some s' \<Longrightarrow> reachable s'"
| after_calloc: "reachable s \<Longrightarrow> valid_size (num * nsize)
            \<Longrightarrow> calloc num nsize s = Some (p, s') \<Longrightarrow> reachable s'"
| after_realloc: "reachable s \<Longrightarrow> chain_wf s xs \<Longrightarrow> x \<in> set xs \<Longrightarrow> valid_size n
            \<Longrightarrow> realloc (x + sizeof_header_t) n s = Some (p, s') \<Longrightarrow> reachable s'"
| after_write: "reachable s \<Longrightarrow> reachable (s\<lparr>mem := m\<rparr>)"

section \<open>Operations of the spec\<close>

text \<open>
  The spec's zero-allocate, for comparison with \<^verbatim>\<open>calloc\<close>: a zero argument gives an absent
  result; a product \<open>count \<times> element_size\<close> that does not fit the 64-bit width gives an
  absent result before allocate is called; otherwise allocate is called with the product
  and the payload is zero-filled.
\<close>

definition zero_allocate :: "size_t \<Rightarrow> size_t \<Rightarrow> heap_state \<Rightarrow> (ptr \<times> heap_state) option" where
  "zero_allocate count element_size s =
     (if count = 0 \<or> element_size = 0 then Some (NULL, s)
      else if 2 ^ 64 \<le> uint count * uint element_size then Some (NULL, s)
      else (case malloc (count * element_size) s of
              None \<Rightarrow> None
            | Some (block, s1) \<Rightarrow>
                if block = NULL then Some (NULL, s1)
                else Some (block, memset block 0 (count * element_size) s1)))"

text \<open>
  An allocation immediately followed by the deallocation of the pointer it returned.
\<close>

definition round_trip :: "size_t \<Rightarrow> heap_state \<Rightarrow> heap_state option" where
  "round_trip n s = (case malloc n s of None \<Rightarrow> None | Some (p, s1) \<Rightarrow> free p s1)"

section \<open>Example states\<close>

text \<open>
  A break at 4096 with room up to 8192, and the states that 8-byte requests lead to;
  each block takes 24 + 8 = 32 bytes.  \<open>A\<close> is the block at 4096 with payload 4120, \<open>B\<close>
  the block at 4128 with payload 4152.  A header that \<^verbatim>\<open>free\<close> has released stays in
  \<open>hdrs\<close>: the memory behind the break is not read.
\<close>

definition hdrs_none :: "ptr \<Rightarrow> header_t" where
  "hdrs_none = (\<lambda>_. \<lparr>s_size = 0, s_is_free = False, s_next = NULL\<rparr>)"

text \<open>The empty heap.\<close>

definition st_empty :: heap_state where
  "st_empty = \<lparr>head = NULL, tail = NULL, hdrs = hdrs_none, mem = (\<lambda>_. 0),
     brk = 4096, brk_limit = 8192\<rparr>"

text \<open>After \<open>A = malloc(8)\<close>.\<close>

definition st_A :: heap_state where
  "st_A = \<lparr>head = 4096, tail = 4096,
     hdrs = hdrs_none(4096 := \<lparr>s_size = 8, s_is_free = False, s_next = NULL\<rparr>),
     mem = (\<lambda>_. 0), brk = 4128, brk_limit = 8192\<rparr>"

text \<open>After \<open>A = malloc(8)\<close>, \<open>B = malloc(8)\<close>.\<close>

definition st_AB :: heap_state where
  "st_AB = \<lparr>head = 4096, tail = 4128,
     hdrs = hdrs_none(4096 := \<lparr>s_size = 8, s_is_free = False, s_next = 4128\<rparr>,
                      4128 := \<lparr>s_size = 8, s_is_free = False, s_next = NULL\<rparr>),
     mem = (\<lambda>_. 0), brk = 4160, brk_limit = 8192\<rparr>"

text \<open>Then \<open>free(A)\<close>: \<open>A\<close> is marked free.\<close>

definition st_fB :: heap_state where
  "st_fB = \<lparr>head = 4096, tail = 4128,
     hdrs = hdrs_none(4096 := \<lparr>s_size = 8, s_is_free = True, s_next = 4128\<rparr>,
                      4128 := \<lparr>s_size = 8, s_is_free = False, s_next = NULL\<rparr>),
     mem = (\<lambda>_. 0), brk = 4160, brk_limit = 8192\<rparr>"

text \<open>Then \<open>free(B)\<close>: \<open>B\<close> is released, the free block \<open>A\<close> is head and tail.\<close>

definition st_f :: heap_state where
  "st_f = \<lparr>head = 4096, tail = 4096,
     hdrs = hdrs_none(4096 := \<lparr>s_size = 8, s_is_free = True, s_next = NULL\<rparr>,
                      4128 := \<lparr>s_size = 8, s_is_free = False, s_next = NULL\<rparr>),
     mem = (\<lambda>_. 0), brk = 4128, brk_limit = 8192\<rparr>"

text \<open>Then \<open>malloc(8)\<close>, which reuses \<open>A\<close>.\<close>

definition st_A' :: heap_state where
  "st_A' = \<lparr>head = 4096, tail = 4096,
     hdrs = hdrs_none(4096 := \<lparr>s_size = 8, s_is_free = False, s_next = NULL\<rparr>,
                      4128 := \<lparr>s_size = 8, s_is_free = False, s_next = NULL\<rparr>),
     mem = (\<lambda>_. 0), brk = 4128, brk_limit = 8192\<rparr>"

text \<open>Then \<open>free\<close> of that pointer: the heap is empty again.\<close>

definition st_empty' :: heap_state where
  "st_empty' = \<lparr>head = NULL, tail = NULL,
     hdrs = hdrs_none(4096 := \<lparr>s_size = 8, s_is_free = False, s_next = NULL\<rparr>,
                      4128 := \<lparr>s_size = 8, s_is_free = False, s_next = NULL\<rparr>),
     mem = (\<lambda>_. 0), brk = 4096, brk_limit = 8192\<rparr>"

text \<open>
  Four blocks: an allocated one of 8 bytes, a free one of 8 bytes, a free one of 32 bytes
  and an allocated one of 8 bytes.
\<close>

definition st_mix :: heap_state where
  "st_mix = \<lparr>head = 4096, tail = 4216,
     hdrs = hdrs_none(4096 := \<lparr>s_size = 8, s_is_free = False, s_next = 4128\<rparr>,
                      4128 := \<lparr>s_size = 8, s_is_free = True, s_next = 4160\<rparr>,
                      4160 := \<lparr>s_size = 32, s_is_free = True, s_next = 4216\<rparr>,
                      4216 := \<lparr>s_size = 8, s_is_free = False, s_next = NULL\<rparr>),
     mem = (\<lambda>_. 0), brk = 4248, brk_limit = 8192\<rparr>"

text \<open>
  The state \<open>st_A\<close> after the caller has written the bytes of \<^verbatim>\<open>"hi!"\<close> into the payload.
\<close>

definition st_A_hi :: heap_state where
  "st_A_hi = st_A\<lparr>mem := (mem st_A)(4120 := 104, 4121 := 105, 4122 := 33)\<rparr>"

text \<open>
  The states that requests of a wrapping size lead to.  \<^verbatim>\<open>malloc\<close> adds the header size
  to the requested size without a check (\<^verbatim>\<open>total_size = sizeof(header_t) + size\<close>), and
  \<^verbatim>\<open>sbrk\<close> reads the sum as a signed increment.  With the size \<open>2\<^sup>6\<^sup>4 - 24\<close>, which is
  18446744073709551592, the sum is 0: \<^verbatim>\<open>sbrk(0)\<close> returns the break and leaves it.  With the
  size \<open>2\<^sup>6\<^sup>4 - 56\<close>, which is 18446744073709551560, the sum is \<open>-32\<close> as a signed increment:
  \<^verbatim>\<open>sbrk\<close> moves the break down by 32 bytes and returns the break it had.  In both cases
  \<^verbatim>\<open>malloc\<close> writes the new header at the address \<^verbatim>\<open>sbrk\<close> returned, which is not below the
  break.  The headers and bytes above the break can be read and written here; a machine
  may fault on such an access instead.

  After \<open>A = malloc(8)\<close>, \<open>W = malloc(2\<^sup>6\<^sup>4 - 24)\<close>: the header of \<open>W\<close> is written at the break
  4128, which has not moved, and linked behind \<open>A\<close>.
\<close>

definition st_wrap :: heap_state where
  "st_wrap = \<lparr>head = 4096, tail = 4128,
     hdrs = hdrs_none(4096 := \<lparr>s_size = 8, s_is_free = False, s_next = 4128\<rparr>,
                      4128 := \<lparr>s_size = 18446744073709551592, s_is_free = False, s_next = NULL\<rparr>),
     mem = (\<lambda>_. 0), brk = 4128, brk_limit = 8192\<rparr>"

text \<open>
  Then \<open>malloc(8)\<close>: \<^verbatim>\<open>sbrk(32)\<close> returns 4128 again, the header of \<open>W\<close> is overwritten, and
  \<^verbatim>\<open>tail->s.next = header\<close> makes the block at 4128 its own successor.
\<close>

definition st_cyc :: heap_state where
  "st_cyc = \<lparr>head = 4096, tail = 4128,
     hdrs = hdrs_none(4096 := \<lparr>s_size = 8, s_is_free = False, s_next = 4128\<rparr>,
                      4128 := \<lparr>s_size = 8, s_is_free = False, s_next = 4128\<rparr>),
     mem = (\<lambda>_. 0), brk = 4160, brk_limit = 8192\<rparr>"

text \<open>
  After \<open>A = malloc(8)\<close>, \<open>W = malloc(2\<^sup>6\<^sup>4 - 24)\<close>, \<open>free(A)\<close>: the payload of \<open>A\<close> ends at the
  break, so \<^verbatim>\<open>free\<close> unlinks the tail, which is \<open>W\<close>, and moves the break down to 4096; the
  flag of \<open>A\<close> is not set.
\<close>

definition st_wrap_freed :: heap_state where
  "st_wrap_freed = \<lparr>head = 4096, tail = 4096,
     hdrs = hdrs_none(4096 := \<lparr>s_size = 8, s_is_free = False, s_next = NULL\<rparr>,
                      4128 := \<lparr>s_size = 18446744073709551592, s_is_free = False, s_next = NULL\<rparr>),
     mem = (\<lambda>_. 0), brk = 4096, brk_limit = 8192\<rparr>"

text \<open>
  Then \<open>malloc(8)\<close>: no block is free, \<^verbatim>\<open>sbrk(32)\<close> returns 4096, the header of \<open>A\<close> is
  overwritten and becomes its own successor.
\<close>

definition st_wrap_grown :: heap_state where
  "st_wrap_grown = \<lparr>head = 4096, tail = 4096,
     hdrs = hdrs_none(4096 := \<lparr>s_size = 8, s_is_free = False, s_next = 4096\<rparr>,
                      4128 := \<lparr>s_size = 18446744073709551592, s_is_free = False, s_next = NULL\<rparr>),
     mem = (\<lambda>_. 0), brk = 4128, brk_limit = 8192\<rparr>"

text \<open>
  After \<open>A = malloc(8)\<close>, \<open>B = malloc(8)\<close>, \<open>V = malloc(2\<^sup>6\<^sup>4 - 56)\<close>: the header of \<open>V\<close> is
  written at 4160 and linked behind \<open>B\<close>, and the break has moved down to 4128, where the
  payload of \<open>A\<close> ends.
\<close>

definition st_neg :: heap_state where
  "st_neg = \<lparr>head = 4096, tail = 4160,
     hdrs = hdrs_none(4096 := \<lparr>s_size = 8, s_is_free = False, s_next = 4128\<rparr>,
                      4128 := \<lparr>s_size = 8, s_is_free = False, s_next = 4160\<rparr>,
                      4160 := \<lparr>s_size = 18446744073709551560, s_is_free = False, s_next = NULL\<rparr>),
     mem = (\<lambda>_. 0), brk = 4128, brk_limit = 8192\<rparr>"

text \<open>
  Then \<open>free(A)\<close>: the tail \<open>V\<close> is unlinked and the break moves down to 4096; the flag of
  \<open>A\<close> is not set.
\<close>

definition st_neg_freed :: heap_state where
  "st_neg_freed = \<lparr>head = 4096, tail = 4128,
     hdrs = hdrs_none(4096 := \<lparr>s_size = 8, s_is_free = False, s_next = 4128\<rparr>,
                      4128 := \<lparr>s_size = 8, s_is_free = False, s_next = NULL\<rparr>,
                      4160 := \<lparr>s_size = 18446744073709551560, s_is_free = False, s_next = NULL\<rparr>),
     mem = (\<lambda>_. 0), brk = 4096, brk_limit = 8192\<rparr>"

text \<open>
  The state \<open>st_A_hi\<close> after \<^verbatim>\<open>realloc\<close> of the payload of \<open>A\<close> to \<open>2\<^sup>6\<^sup>4 - 24\<close> bytes: the new
  block \<open>W\<close> at 4128 has received the 8 bytes of \<open>A\<close> at its payload 4152 and has then been
  unlinked by \<open>free(A)\<close>, and the break is at 4096.
\<close>

definition st_hi_realloc :: heap_state where
  "st_hi_realloc = \<lparr>head = 4096, tail = 4096,
     hdrs = hdrs_none(4096 := \<lparr>s_size = 8, s_is_free = False, s_next = NULL\<rparr>,
                      4128 := \<lparr>s_size = 18446744073709551592, s_is_free = False, s_next = NULL\<rparr>),
     mem = mem (memcpy 4152 4120 8 st_A_hi),
     brk = 4096, brk_limit = 8192\<rparr>"

section \<open>Machine arithmetic\<close>

lemma sint_of_int64:
  "- (2 ^ 63) \<le> i \<Longrightarrow> i < 2 ^ 63 \<Longrightarrow> sint (word_of_int i :: 64 word) = i"
proof -
  assume a: "- (2 ^ 63) \<le> i" "i < 2 ^ 63"
  have "sint (word_of_int i :: 64 word) = (i + 2 ^ 63) mod 2 ^ 64 - 2 ^ 63"
    by (simp add: int_word_sint)
  also have "(i + 2 ^ 63) mod 2 ^ 64 = i + 2 ^ 63"
    using a by (intro mod_pos_pos_trivial) auto
  finally show ?thesis by simp
qed

lemma uint_sizeof_header_t [simp]: "uint sizeof_header_t = 24"
  by (simp add: sizeof_header_t_def)

lemma sint_grow:
  assumes "valid_size n"
  shows "sint (sizeof_header_t + n) = 24 + uint n"
proof -
  have e: "sizeof_header_t + n = word_of_int (24 + uint n)"
    by (simp add: sizeof_header_t_def)
  have "0 \<le> uint n" by simp
  moreover have "24 + uint n < 2 ^ 63"
    using assms by (simp add: valid_size_def)
  ultimately have "sint (word_of_int (24 + uint n) :: 64 word) = 24 + uint n"
    by (intro sint_of_int64) linarith+
  then show ?thesis by (simp only: e)
qed

lemma sint_shrink:
  assumes "valid_size n"
  shows "sint (0 - sizeof_header_t - n) = - (24 + uint n)"
proof -
  have e: "0 - sizeof_header_t - n = word_of_int (- (24 + uint n))"
    by (simp add: sizeof_header_t_def)
  have "0 \<le> uint n" by simp
  moreover have "24 + uint n < 2 ^ 63"
    using assms by (simp add: valid_size_def)
  ultimately have "sint (word_of_int (- (24 + uint n)) :: 64 word) = - (24 + uint n)"
    by (intro sint_of_int64) linarith+
  then show ?thesis by (simp only: e)
qed

lemma uint_add_small:
  fixes x y :: "64 word"
  assumes "uint x + uint y < 2 ^ 64"
  shows "uint (x + y) = uint x + uint y"
  using assms uint_add_lem [of x y] by simp

lemma uint_payload_end:
  fixes x :: "64 word"
  assumes "block_end h x < 2 ^ 64"
  shows "uint (x + sizeof_header_t + s_size (h x)) = block_end h x"
proof -
  have a: "uint x + 24 + uint (s_size (h x)) < 2 ^ 64"
    using assms by (simp add: block_end_def)
  have "0 \<le> uint (s_size (h x))" by simp
  with a have "uint x + uint sizeof_header_t < 2 ^ 64"
    unfolding uint_sizeof_header_t by linarith
  then have b: "uint (x + sizeof_header_t) = uint x + 24"
    by (simp add: uint_add_small)
  with a have "uint (x + sizeof_header_t) + uint (s_size (h x)) < 2 ^ 64"
    by simp
  then have "uint (x + sizeof_header_t + s_size (h x))
      = uint (x + sizeof_header_t) + uint (s_size (h x))"
    by (rule uint_add_small)
  with b show ?thesis by (simp add: block_end_def)
qed

lemma uint_add_signed:
  fixes b t :: "64 word"
  assumes "0 \<le> uint b + sint t" and "uint b + sint t < 2 ^ 64"
  shows "uint (b + t) = uint b + sint t"
proof -
  have "b + t = word_of_int (uint b + sint t)" by simp
  then have "uint (b + t) = (uint b + sint t) mod 2 ^ 64"
    by (simp only: uint_word_of_int) simp
  with assms show ?thesis by simp
qed

lemma sint_uminus:
  fixes t :: "64 word"
  assumes "sint t \<noteq> - (2 ^ 63)"
  shows "sint (- t) = - sint t"
proof -
  have "- (2 ^ 63) \<le> sint t" "sint t < 2 ^ 63"
    using sint_ge [of t] sint_lt [of t] by simp_all
  with assms have "- (2 ^ 63) \<le> - sint t" "- sint t < 2 ^ 63" by linarith+
  then have "sint (word_of_int (- sint t) :: 64 word) = - sint t"
    by (rule sint_of_int64)
  then show ?thesis by simp
qed

lemma word_le_from_uint: "uint a \<le> uint b \<Longrightarrow> a \<le> b" for a b :: "64 word"
  by (simp add: word_le_def)

section \<open>The chain\<close>

subsection \<open>Paths\<close>

lemma path_NULL [simp]: "path h NULL xs \<longleftrightarrow> xs = []"
  by (cases xs) auto

lemma path_not_NULL: "path h a xs \<Longrightarrow> NULL \<notin> set xs"
  by (induction xs arbitrary: a) auto

lemma path_hd: "path h a xs \<Longrightarrow> xs \<noteq> [] \<Longrightarrow> a = hd xs"
  by (cases xs) auto

lemma path_cong:
  "(\<And>x. x \<in> set xs \<Longrightarrow> s_next (h' x) = s_next (h x)) \<Longrightarrow> path h' a xs = path h a xs"
  by (induction xs arbitrary: a) auto

lemma path_last_next: "path h a xs \<Longrightarrow> xs \<noteq> [] \<Longrightarrow> s_next (h (last xs)) = NULL"
  by (induction xs arbitrary: a) (auto split: if_splits)

lemma path_unique: "path h a xs \<Longrightarrow> path h a ys \<Longrightarrow> xs = ys"
proof (induction xs arbitrary: a ys)
  case Nil
  then show ?case by simp
next
  case (Cons x xs)
  then show ?case by (cases ys) auto
qed

lemma distinct_last_butlast: "distinct xs \<Longrightarrow> x \<in> set (butlast xs) \<Longrightarrow> x \<noteq> last xs"
  by (cases xs rule: rev_cases) auto

lemma path_snoc:
  assumes "path h a xs" and "xs \<noteq> []" and "distinct (xs @ [y])" and "y \<noteq> NULL"
    and "s_next (h' (last xs)) = y" and "s_next (h' y) = NULL"
    and "\<And>x. x \<in> set (butlast xs) \<Longrightarrow> s_next (h' x) = s_next (h x)"
  shows "path h' a (xs @ [y])"
  using assms
proof (induction xs arbitrary: a)
  case Nil
  then show ?case by simp
next
  case (Cons x xs)
  show ?case
  proof (cases "xs = []")
    case True
    with Cons.prems show ?thesis by simp
  next
    case False
    with Cons.prems have "path h' (s_next (h x)) (xs @ [y])"
      by (intro Cons.IH) auto
    moreover from False Cons.prems have "s_next (h' x) = s_next (h x)" by simp
    ultimately show ?thesis using Cons.prems by simp
  qed
qed

lemma path_butlast:
  assumes "path h a (xs @ [y])" and "xs \<noteq> []" and "distinct (xs @ [y])"
    and "s_next (h' (last xs)) = NULL"
    and "\<And>x. x \<in> set (butlast xs) \<Longrightarrow> s_next (h' x) = s_next (h x)"
  shows "path h' a xs"
  using assms
proof (induction xs arbitrary: a)
  case Nil
  then show ?case by simp
next
  case (Cons x xs)
  show ?case
  proof (cases "xs = []")
    case True
    with Cons.prems show ?thesis by simp
  next
    case False
    with Cons.prems have "path h' (s_next (h x)) xs"
      by (intro Cons.IH) auto
    moreover from False Cons.prems have "s_next (h' x) = s_next (h x)" by simp
    ultimately show ?thesis using Cons.prems by simp
  qed
qed

subsection \<open>Layout\<close>

lemma tiles_cong:
  "(\<And>x. x \<in> set xs \<Longrightarrow> s_size (h' x) = s_size (h x)) \<Longrightarrow> tiles h' b xs e = tiles h b xs e"
  by (induction xs arbitrary: b) (auto simp: block_end_def)

lemma block_end_gt: "uint x < block_end h x"
proof -
  have "0 \<le> uint (s_size (h x))" by simp
  then show ?thesis
    unfolding block_end_def uint_sizeof_header_t by linarith
qed

lemma tiles_le: "tiles h b xs e \<Longrightarrow> b \<le> e"
proof (induction xs arbitrary: b)
  case Nil
  then show ?case by simp
next
  case (Cons x xs)
  then have "block_end h x \<le> e" by simp
  with block_end_gt [of x h] Cons.prems show ?case by simp
qed

lemma tiles_mem:
  "tiles h b xs e \<Longrightarrow> x \<in> set xs \<Longrightarrow>
     b \<le> uint x \<and> block_end h x \<le> e \<and> valid_size (s_size (h x))"
proof (induction xs arbitrary: b)
  case Nil
  then show ?case by simp
next
  case (Cons y ys)
  show ?case
  proof (cases "x = y")
    case True
    with Cons.prems tiles_le [of h "block_end h y" ys e] show ?thesis by simp
  next
    case False
    with Cons.prems have "block_end h y \<le> uint x \<and> block_end h x \<le> e \<and> valid_size (s_size (h x))"
      by (intro Cons.IH) auto
    with block_end_gt [of y h] Cons.prems show ?thesis by simp
  qed
qed

lemma tiles_end_iff_last:
  "tiles h b xs e \<Longrightarrow> x \<in> set xs \<Longrightarrow> block_end h x = e \<longleftrightarrow> x = last xs"
proof (induction xs arbitrary: b)
  case Nil
  then show ?case by simp
next
  case (Cons y ys)
  show ?case
  proof (cases "ys = []")
    case True
    with Cons.prems show ?thesis by simp
  next
    case False
    have t: "tiles h (block_end h y) ys e" using Cons.prems by simp
    show ?thesis
    proof (cases "x = y")
      case True
      from False have "last ys \<in> set ys" by simp
      with t have "block_end h y \<le> uint (last ys)" by (blast dest: tiles_mem)
      with block_end_gt [of y h] have "y \<noteq> last ys" by auto
      moreover from False t have "hd ys \<in> set ys" by simp
      with t have "block_end h (hd ys) \<le> e" by (blast dest: tiles_mem)
      moreover from False t have "uint (hd ys) = block_end h y" by (cases ys) auto
      ultimately show ?thesis
        using True False block_end_gt [of "hd ys" h] by auto
    next
      case False
      with Cons.prems t \<open>ys \<noteq> []\<close> show ?thesis by (simp add: Cons.IH)
    qed
  qed
qed

lemma tiles_distinct: "tiles h b xs e \<Longrightarrow> distinct xs"
proof (induction xs arbitrary: b)
  case Nil
  then show ?case by simp
next
  case (Cons y ys)
  then have t: "tiles h (block_end h y) ys e" by simp
  have "y \<notin> set ys"
  proof
    assume "y \<in> set ys"
    with t have "block_end h y \<le> uint y" by (blast dest: tiles_mem)
    with block_end_gt [of y h] show False by simp
  qed
  with t Cons.IH show ?case by simp
qed

lemma tiles_append:
  "tiles h b (xs @ ys) e \<longleftrightarrow> (\<exists>m. tiles h b xs m \<and> tiles h m ys e)"
  by (induction xs arbitrary: b) auto

lemma tiles_snoc:
  "tiles h b (xs @ [y]) e \<longleftrightarrow>
     tiles h b xs (uint y) \<and> valid_size (s_size (h y)) \<and> block_end h y = e"
  by (auto simp: tiles_append)

subsection \<open>The two loops on a well-formed chain\<close>

lemma get_free_block_loop_NULL: "get_free_block_loop h n NULL = Some NULL"
  by (subst get_free_block_loop.simps) simp

lemma get_free_block_loop_hit:
  "cur \<noteq> NULL \<Longrightarrow> s_is_free (h cur) \<Longrightarrow> n \<le> s_size (h cur)
     \<Longrightarrow> get_free_block_loop h n cur = Some cur"
  by (subst get_free_block_loop.simps) simp

lemma get_free_block_loop_miss:
  "cur \<noteq> NULL \<Longrightarrow> \<not> (s_is_free (h cur) \<and> n \<le> s_size (h cur))
     \<Longrightarrow> get_free_block_loop h n cur = get_free_block_loop h n (s_next (h cur))"
  by (subst get_free_block_loop.simps) auto

lemma get_free_block_loop_path:
  "path h a xs \<Longrightarrow> get_free_block_loop h n a = Some (first_fit h n xs)"
proof (induction xs arbitrary: a)
  case Nil
  then show ?case by (subst get_free_block_loop.simps) simp
next
  case (Cons x xs)
  then have "get_free_block_loop h n (s_next (h x)) = Some (first_fit h n xs)"
    by simp
  with Cons.prems show ?case
    by (subst get_free_block_loop.simps) simp
qed

lemma get_free_block_chain:
  "chain_wf s xs \<Longrightarrow> get_free_block n s = Some (first_fit (hdrs s) n xs)"
  by (simp add: chain_wf_def get_free_block_def get_free_block_loop_path)

lemma first_fit_mem: "first_fit h n xs \<noteq> NULL \<Longrightarrow> first_fit h n xs \<in> set xs"
  by (induction xs) (auto split: if_splits)

lemma first_fit_fits:
  "first_fit h n xs \<noteq> NULL \<Longrightarrow>
     s_is_free (h (first_fit h n xs)) \<and> n \<le> s_size (h (first_fit h n xs))"
  by (induction xs) (auto split: if_splits)

lemma first_fit_none:
  "\<forall>x\<in>set xs. \<not> (s_is_free (h x) \<and> n \<le> s_size (h x)) \<Longrightarrow> first_fit h n xs = NULL"
  by (induction xs) auto

lemma first_fit_append:
  assumes "\<forall>y\<in>set pre. \<not> (s_is_free (h y) \<and> n \<le> s_size (h y))"
    and "s_is_free (h f)" and "n \<le> s_size (h f)"
  shows "first_fit h n (pre @ f # post) = f"
  using assms by (induction pre) auto

lemma free_loop_NULL: "free_loop s NULL = Some s"
  by (subst free_loop.simps) simp

lemma free_loop_hit:
  "tmp \<noteq> NULL \<Longrightarrow> s_next (hdrs s tmp) = tail s \<Longrightarrow>
     free_loop s tmp =
       Some (s\<lparr>hdrs := (hdrs s)(tmp := (hdrs s tmp)\<lparr>s_next := NULL\<rparr>), tail := tmp\<rparr>)"
  by (subst free_loop.simps) (simp add: free_loop_NULL)

lemma free_loop_miss:
  "tmp \<noteq> NULL \<Longrightarrow> s_next (hdrs s tmp) \<noteq> tail s \<Longrightarrow>
     free_loop s tmp = free_loop s (s_next (hdrs s tmp))"
  by (subst free_loop.simps) simp

lemma free_loop_path:
  assumes "path (hdrs s) a (ys @ [t])" and "ys \<noteq> []" and "distinct (ys @ [t])"
    and "tail s = t"
  shows "free_loop s a =
     Some (s\<lparr>hdrs := (hdrs s)(last ys := (hdrs s (last ys))\<lparr>s_next := NULL\<rparr>),
             tail := last ys\<rparr>)"
  using assms
proof (induction ys arbitrary: a)
  case Nil
  then show ?case by simp
next
  case (Cons y ys)
  show ?case
  proof (cases "ys = []")
    case True
    with Cons.prems have "a = y" "y \<noteq> NULL" "s_next (hdrs s y) = tail s"
      by auto
    then show ?thesis
      using True by (subst free_loop.simps) (simp add: free_loop_NULL)
  next
    case False
    then obtain z zs where ys: "ys = z # zs" by (cases ys) auto
    with Cons.prems have a: "a = y" "y \<noteq> NULL" "s_next (hdrs s y) = z" "z \<noteq> tail s"
      by auto
    from Cons.prems False have "free_loop s (s_next (hdrs s y)) =
       Some (s\<lparr>hdrs := (hdrs s)(last ys := (hdrs s (last ys))\<lparr>s_next := NULL\<rparr>),
               tail := last ys\<rparr>)"
      by (intro Cons.IH) auto
    with a False show ?thesis
      by (subst free_loop.simps) simp
  qed
qed

section \<open>The operations on a well-formed heap\<close>

subsection \<open>The break\<close>

lemma sbrk_zero [simp]: "sbrk 0 s = (brk s, s)"
  by (simp add: sbrk_def)

lemma sbrk_fails_eq: "sbrk_fails i s \<Longrightarrow> sbrk i s = (- 1, s)"
  by (auto simp: sbrk_def sbrk_fails_def)

lemma sbrk_ok_eq:
  "\<not> sbrk_fails t s \<Longrightarrow> sbrk t s = (brk s, s\<lparr>brk := brk s + t\<rparr>)"
  by (simp add: sbrk_def)

lemma grow_nonzero: "valid_size n \<Longrightarrow> sizeof_header_t + n \<noteq> 0"
proof
  assume v: "valid_size n" and z: "sizeof_header_t + n = 0"
  have "0 \<le> uint n" by simp
  moreover from v z have "24 + uint n = 0" using sint_grow [of n] by simp
  ultimately show False by linarith
qed

lemma shrink_nonzero: "valid_size n \<Longrightarrow> 0 - sizeof_header_t - n \<noteq> 0"
proof
  assume v: "valid_size n" and z: "0 - sizeof_header_t - n = 0"
  have "0 \<le> uint n" by simp
  moreover from v z have "- (24 + uint n) = 0" using sint_shrink [of n] by simp
  ultimately show False by linarith
qed

lemma sbrk_fails_grow:
  "valid_size n \<Longrightarrow>
     sbrk_fails (sizeof_header_t + n) s \<longleftrightarrow> uint (brk_limit s) < uint (brk s) + 24 + uint n"
proof -
  assume v: "valid_size n"
  have "sbrk_fails (sizeof_header_t + n) s \<longleftrightarrow>
      uint (brk s) + (24 + uint n) < 0 \<or> uint (brk_limit s) < uint (brk s) + (24 + uint n)"
    using v by (simp add: sbrk_fails_def sint_grow grow_nonzero)
  also have "\<dots> \<longleftrightarrow> uint (brk_limit s) < uint (brk s) + 24 + uint n"
    using uint_ge_0 [of n] uint_ge_0 [of "brk s"] by linarith
  finally show ?thesis .
qed

lemma sbrk_grow_ok:
  assumes "valid_size n" and "\<not> sbrk_fails (sizeof_header_t + n) s"
  shows "sbrk (sizeof_header_t + n) s = (brk s, s\<lparr>brk := brk s + (sizeof_header_t + n)\<rparr>)"
    and "uint (brk s + (sizeof_header_t + n)) = uint (brk s) + 24 + uint n"
    and "uint (brk s) + 24 + uint n \<le> uint (brk_limit s)"
proof -
  show "sbrk (sizeof_header_t + n) s = (brk s, s\<lparr>brk := brk s + (sizeof_header_t + n)\<rparr>)"
    using assms by (simp add: sbrk_def grow_nonzero)
  show le: "uint (brk s) + 24 + uint n \<le> uint (brk_limit s)"
    using assms by (simp add: sbrk_fails_grow)
  have "uint (brk_limit s) < 2 ^ 64" using uint_lt2p [of "brk_limit s"] by simp
  with le have "uint (brk s) + uint (sizeof_header_t + n) < 2 ^ 64"
    using assms(1) sint_grow [of n] uint_add_small [of sizeof_header_t n]
    by (simp add: valid_size_def)
  then have "uint (brk s + (sizeof_header_t + n)) = uint (brk s) + uint (sizeof_header_t + n)"
    by (rule uint_add_small)
  moreover have "uint (sizeof_header_t + n) = 24 + uint n"
    using assms(1) uint_add_small [of sizeof_header_t n] by (simp add: valid_size_def)
  ultimately show "uint (brk s + (sizeof_header_t + n)) = uint (brk s) + 24 + uint n"
    by simp
qed

lemma sbrk_shrink_ok:
  assumes v: "valid_size n" and e: "x + sizeof_header_t + n = brk s"
    and u: "uint x + 24 + uint n = uint (brk s)" and le: "brk s \<le> brk_limit s"
  shows "sbrk (0 - sizeof_header_t - n) s = (brk s, s\<lparr>brk := x\<rparr>)"
proof -
  have "0 \<le> uint x" "0 \<le> uint n" by simp_all
  moreover from le have "uint (brk s) \<le> uint (brk_limit s)" by (simp add: word_le_def)
  ultimately have "\<not> (uint (brk s) + - (24 + uint n) < 0
      \<or> uint (brk_limit s) < uint (brk s) + - (24 + uint n))"
    using u by linarith
  then have nf: "\<not> sbrk_fails (0 - sizeof_header_t - n) s"
    by (simp only: sbrk_fails_def sint_shrink [OF v] simp_thms)
  have eq: "brk s + (0 - sizeof_header_t - n) = x"
    unfolding e [symmetric] by simp
  have nz: "0 - sizeof_header_t - n \<noteq> 0"
    using v by (rule shrink_nonzero)
  show ?thesis
    by (simp only: sbrk_def nz nf eq if_False)
qed

lemma sbrk_back:
  assumes ok: "\<not> sbrk_fails t s" and le: "brk s \<le> brk_limit s"
    and lim: "uint (brk_limit s) < 2 ^ 63"
    and b': "brk s' = brk s + t" and l': "brk_limit s' = brk_limit s"
  shows "snd (sbrk (0 - t) s') = s'\<lparr>brk := brk s\<rparr>"
proof (cases "t = 0")
  case True
  with b' show ?thesis by (simp add: sbrk_def)
next
  case False
  from le have ble: "uint (brk s) \<le> uint (brk_limit s)" by (simp add: word_le_def)
  from ok False have r: "0 \<le> uint (brk s) + sint t" "uint (brk s) + sint t \<le> uint (brk_limit s)"
    by (simp_all add: sbrk_fails_def)
  with lim have "uint (brk s) + sint t < 2 ^ 64" by simp
  with r(1) have u: "uint (brk s + t) = uint (brk s) + sint t" by (rule uint_add_signed)
  have "sint t \<noteq> - (2 ^ 63)"
  proof
    assume "sint t = - (2 ^ 63)"
    with r(1) ble lim show False by linarith
  qed
  then have m: "sint (- t) = - sint t" by (rule sint_uminus)
  have "0 \<le> uint (brk s)" by simp
  with u m ble b' l' have "\<not> sbrk_fails (0 - t) s'"
    by (simp add: sbrk_fails_def)
  with b' show ?thesis by (simp add: sbrk_ok_eq)
qed

lemma low_break_facts:
  assumes le: "brk s \<le> brk_limit s" and lim: "uint (brk_limit s) < 2 ^ 63"
  shows "brk s \<noteq> - 1" and "brk s + sizeof_header_t \<noteq> NULL"
proof -
  from le have ble: "uint (brk s) \<le> uint (brk_limit s)" by (simp add: word_le_def)
  have "uint (- 1 :: 64 word) = 2 ^ 64 - 1"
    by (simp add: unsigned_minus_1_eq_mask mask_eq_exp_minus_1)
  with ble lim have "uint (brk s) \<noteq> uint (- 1 :: 64 word)" by simp
  then show "brk s \<noteq> - 1" by auto
  from ble lim have "uint (brk s) + uint sizeof_header_t < 2 ^ 64" by simp
  then have "uint (brk s + sizeof_header_t) = uint (brk s) + 24"
    by (simp add: uint_add_small)
  moreover have "0 \<le> uint (brk s)" by simp
  ultimately have "uint (brk s + sizeof_header_t) \<noteq> 0" by linarith
  then show "brk s + sizeof_header_t \<noteq> NULL" by auto
qed

subsection \<open>What \<open>malloc\<close> does\<close>

lemma malloc_zero [simp]: "malloc 0 s = Some (NULL, s)"
  by (simp add: malloc_def)

lemma malloc_reuse_eq:
  assumes "chain_wf s xs" and "n \<noteq> 0" and "first_fit (hdrs s) n xs = f" and "f \<noteq> NULL"
  shows "malloc n s = Some (f + sizeof_header_t, malloc_reuse f s)"
  using assms by (simp add: malloc_def get_free_block_chain)

lemma malloc_fail_eq:
  assumes "chain_wf s xs" and "n \<noteq> 0" and "first_fit (hdrs s) n xs = NULL"
    and "sbrk_fails (sizeof_header_t + n) s"
  shows "malloc n s = Some (NULL, s)"
  using assms by (simp add: malloc_def get_free_block_chain sbrk_fails_eq)

lemma malloc_grow_eq:
  assumes "chain_wf s xs" and "n \<noteq> 0" and "first_fit (hdrs s) n xs = NULL"
    and "valid_size n" and "\<not> sbrk_fails (sizeof_header_t + n) s"
  shows "malloc n s =
     Some (brk s + sizeof_header_t,
           malloc_link (brk s) n (s\<lparr>brk := brk s + (sizeof_header_t + n)\<rparr>))"
proof -
  have "uint (brk s) + 24 + uint n \<le> uint (brk_limit s)"
    using assms by (simp add: sbrk_grow_ok)
  moreover have "uint (brk_limit s) < 2 ^ 64"
    using uint_lt2p [of "brk_limit s"] by simp
  moreover have "0 \<le> uint n" by simp
  moreover have "uint (- 1 :: 64 word) = 2 ^ 64 - 1"
    by (simp add: unsigned_minus_1_eq_mask mask_eq_exp_minus_1)
  ultimately have "uint (brk s) \<noteq> uint (- 1 :: 64 word)"
    by linarith
  then have "brk s \<noteq> - 1" by auto
  then show ?thesis
    using assms by (simp add: malloc_def get_free_block_chain sbrk_grow_ok)
qed

lemma malloc_link_empty:
  "head s = NULL \<Longrightarrow> tail s = NULL \<Longrightarrow>
     malloc_link b n s =
       s\<lparr>hdrs := (hdrs s)(b := \<lparr>s_size = n, s_is_free = False, s_next = NULL\<rparr>),
         head := b, tail := b\<rparr>"
  by (simp add: malloc_link_def)

lemma malloc_link_nonempty:
  "head s \<noteq> NULL \<Longrightarrow> tail s \<noteq> NULL \<Longrightarrow>
     malloc_link b n s =
       s\<lparr>hdrs := ((hdrs s)(b := \<lparr>s_size = n, s_is_free = False, s_next = NULL\<rparr>))
                 (tail s := (((hdrs s)(b := \<lparr>s_size = n, s_is_free = False, s_next = NULL\<rparr>))
                              (tail s))\<lparr>s_next := b\<rparr>),
         tail := b\<rparr>"
  by (simp add: malloc_link_def)

subsection \<open>Consequences of the invariant\<close>

lemma chain_wf_head: "chain_wf s xs \<Longrightarrow> head s = (if xs = [] then NULL else hd xs)"
  by (cases xs) (auto simp: chain_wf_def)

lemma chain_wf_NULL_iff:
  "chain_wf s xs \<Longrightarrow> (head s = NULL \<longleftrightarrow> xs = []) \<and> (tail s = NULL \<longleftrightarrow> xs = [])"
proof -
  assume c: "chain_wf s xs"
  then have "NULL \<notin> set xs" by (auto simp: chain_wf_def dest: path_not_NULL)
  then have "xs \<noteq> [] \<Longrightarrow> hd xs \<noteq> NULL \<and> last xs \<noteq> NULL"
    by (metis hd_in_set last_in_set)
  with c chain_wf_head [OF c] show ?thesis
    by (auto simp: chain_wf_def)
qed

lemma chain_wf_unique: "chain_wf s xs \<Longrightarrow> chain_wf s ys \<Longrightarrow> xs = ys"
  by (auto simp: chain_wf_def dest: path_unique)

lemma chain_wf_reuse: "chain_wf s xs \<Longrightarrow> chain_wf (malloc_reuse f s) xs"
proof -
  assume c: "chain_wf s xs"
  have "path ((hdrs s)(f := (hdrs s f)\<lparr>s_is_free := False\<rparr>)) a xs = path (hdrs s) a xs" for a
    by (rule path_cong) simp
  with c show ?thesis by (simp add: chain_wf_def malloc_reuse_def)
qed

lemma heap_inv_chain: "heap_inv s xs \<Longrightarrow> chain_wf s xs"
  by (simp add: heap_inv_def)

lemma heap_inv_tiles:
  "heap_inv s xs \<Longrightarrow> xs \<noteq> [] \<Longrightarrow> tiles (hdrs s) (uint (hd xs)) xs (uint (brk s))"
  by (simp add: heap_inv_def)

lemma heap_inv_mem:
  assumes "heap_inv s xs" and "x \<in> set xs"
  shows "block_end (hdrs s) x \<le> uint (brk s)" and "valid_size (s_size (hdrs s x))"
    and "x \<noteq> NULL" and "x \<noteq> brk s"
proof -
  from assms have xs: "xs \<noteq> []" by auto
  from heap_inv_tiles [OF assms(1) xs] assms(2)
  show e: "block_end (hdrs s) x \<le> uint (brk s)" and "valid_size (s_size (hdrs s x))"
    by (blast dest: tiles_mem)+
  from assms show "x \<noteq> NULL"
    by (auto simp: heap_inv_def chain_wf_def dest: path_not_NULL)
  from e block_end_gt [of x "hdrs s"] show "x \<noteq> brk s" by auto
qed

lemma heap_inv_distinct: "heap_inv s xs \<Longrightarrow> distinct xs"
  by (cases "xs = []") (auto dest: heap_inv_tiles tiles_distinct)

lemma heap_inv_mem_upd [simp]: "heap_inv (s\<lparr>mem := m\<rparr>) xs = heap_inv s xs"
  by (simp add: heap_inv_def chain_wf_def)

lemma heap_inv_flag:
  assumes "heap_inv s xs"
  shows "heap_inv (s\<lparr>hdrs := (hdrs s)(x := (hdrs s x)\<lparr>s_is_free := b\<rparr>)\<rparr>) xs"
proof -
  let ?h = "(hdrs s)(x := (hdrs s x)\<lparr>s_is_free := b\<rparr>)"
  have "path ?h a xs = path (hdrs s) a xs" for a
    by (rule path_cong) simp
  moreover have "tiles ?h c xs e = tiles (hdrs s) c xs e" for c e
    by (rule tiles_cong) simp
  ultimately show ?thesis
    using assms by (cases "xs = []") (simp_all add: heap_inv_def chain_wf_def)
qed

lemma heap_inv_reuse: "heap_inv s xs \<Longrightarrow> heap_inv (malloc_reuse f s) xs"
  unfolding malloc_reuse_def by (rule heap_inv_flag)

lemma heap_inv_start:
  "head s = NULL \<Longrightarrow> tail s = NULL \<Longrightarrow> brk s \<noteq> NULL \<Longrightarrow> brk s \<le> brk_limit s
     \<Longrightarrow> uint (brk_limit s) < 2 ^ 63 \<Longrightarrow> heap_inv s []"
  by (simp add: heap_inv_def chain_wf_def)

subsection \<open>What \<open>free\<close> does on a block of the chain\<close>

lemma free_NULL [simp]: "free NULL s = Some s"
  by (simp add: free_def)

lemma payload_facts:
  assumes inv: "heap_inv s xs" and x: "x \<in> set xs"
  shows "x + sizeof_header_t \<noteq> NULL"
    and "x + sizeof_header_t - sizeof_header_t = x"
    and "x + sizeof_header_t + s_size (hdrs s x) = brk s \<longleftrightarrow> x = last xs"
proof -
  from x have ne: "xs \<noteq> []" by auto
  have e: "block_end (hdrs s) x \<le> uint (brk s)" using inv x by (rule heap_inv_mem)
  have lt: "uint (brk s) < 2 ^ 64" using uint_lt2p [of "brk s"] by simp
  have "0 \<le> uint (s_size (hdrs s x))" "0 \<le> uint x" by simp_all
  with e lt have "uint x + uint sizeof_header_t < 2 ^ 64"
    unfolding block_end_def uint_sizeof_header_t by linarith
  then have "uint (x + sizeof_header_t) = uint x + 24"
    by (simp add: uint_add_small)
  moreover have "0 \<le> uint x" by simp
  ultimately have "uint (x + sizeof_header_t) \<noteq> 0" by linarith
  then show "x + sizeof_header_t \<noteq> NULL" by auto
  show "x + sizeof_header_t - sizeof_header_t = x" by simp
  from e lt have "block_end (hdrs s) x < 2 ^ 64" by linarith
  then have u: "uint (x + sizeof_header_t + s_size (hdrs s x)) = block_end (hdrs s) x"
    by (rule uint_payload_end)
  have "x + sizeof_header_t + s_size (hdrs s x) = brk s
      \<longleftrightarrow> uint (x + sizeof_header_t + s_size (hdrs s x)) = uint (brk s)"
    by (rule word_uint_eq_iff)
  also have "\<dots> \<longleftrightarrow> block_end (hdrs s) x = uint (brk s)"
    by (simp only: u)
  also have "\<dots> \<longleftrightarrow> x = last xs"
    using heap_inv_tiles [OF inv ne] x by (rule tiles_end_iff_last)
  finally show "x + sizeof_header_t + s_size (hdrs s x) = brk s \<longleftrightarrow> x = last xs" .
qed

lemma free_mark_eq:
  assumes "heap_inv s xs" and "x \<in> set xs" and "x \<noteq> last xs"
  shows "free (x + sizeof_header_t) s =
     Some (s\<lparr>hdrs := (hdrs s)(x := (hdrs s x)\<lparr>s_is_free := True\<rparr>)\<rparr>)"
  using payload_facts [OF assms(1,2)] assms(3) by (simp add: free_def)

lemma free_last_single_eq:
  assumes inv: "heap_inv s [x]"
  shows "free (x + sizeof_header_t) s = Some (s\<lparr>head := NULL, tail := NULL, brk := x\<rparr>)"
proof -
  have x: "x \<in> set [x]" by simp
  note pf = payload_facts [OF inv x]
  from inv have ht: "head s = x" "tail s = x"
    by (simp_all add: heap_inv_def chain_wf_def)
  have v: "valid_size (s_size (hdrs s x))" using inv x by (rule heap_inv_mem)
  from inv have u: "uint x + 24 + uint (s_size (hdrs s x)) = uint (brk s)"
    by (simp add: heap_inv_def block_end_def)
  from inv have le: "brk s \<le> brk_limit s" by (simp add: heap_inv_def)
  let ?s1 = "s\<lparr>head := NULL, tail := NULL\<rparr>"
  have "sbrk (0 - sizeof_header_t - s_size (hdrs s x)) ?s1 = (brk ?s1, ?s1\<lparr>brk := x\<rparr>)"
    using v pf(3) u le by (intro sbrk_shrink_ok) simp_all
  with pf ht show ?thesis
    by (simp add: free_def free_unlink_def)
qed

lemma free_last_multi_eq:
  assumes inv: "heap_inv s (ys @ [x])" and ne: "ys \<noteq> []"
  shows "free (x + sizeof_header_t) s =
     Some (s\<lparr>hdrs := (hdrs s)(last ys := (hdrs s (last ys))\<lparr>s_next := NULL\<rparr>),
             tail := last ys, brk := x\<rparr>)"
proof -
  let ?xs = "ys @ [x]"
  have x: "x \<in> set ?xs" by simp
  note pf = payload_facts [OF inv x]
  have d: "distinct ?xs" using inv by (rule heap_inv_distinct)
  from inv ne have h: "head s = hd ys" and t: "tail s = x"
    and p: "path (hdrs s) (head s) ?xs"
    using chain_wf_head [OF heap_inv_chain [OF inv]]
    by (simp_all add: heap_inv_def chain_wf_def)
  from ne d have "hd ys \<noteq> x" by (cases ys) auto
  with h t have neq: "head s \<noteq> tail s" by simp
  have lx: "last ys \<noteq> x" using ne d by (metis disjoint_iff distinct_append last_in_set list.set_intros(1))
  let ?s1 = "s\<lparr>hdrs := (hdrs s)(last ys := (hdrs s (last ys))\<lparr>s_next := NULL\<rparr>),
               tail := last ys\<rparr>"
  have fl: "free_loop s (head s) = Some ?s1"
    using p ne d t by (rule free_loop_path)
  have v: "valid_size (s_size (hdrs s x))" using inv x by (rule heap_inv_mem)
  have "block_end (hdrs s) x = uint (brk s)"
    using heap_inv_tiles [OF inv] by (simp add: tiles_snoc)
  then have u: "uint x + 24 + uint (s_size (hdrs s x)) = uint (brk s)"
    by (simp add: block_end_def)
  from inv have le: "brk s \<le> brk_limit s" by (simp add: heap_inv_def)
  have sz: "s_size (hdrs ?s1 x) = s_size (hdrs s x)" using lx by simp
  have "sbrk (0 - sizeof_header_t - s_size (hdrs s x)) ?s1 = (brk ?s1, ?s1\<lparr>brk := x\<rparr>)"
    using v pf(3) u le by (intro sbrk_shrink_ok) simp_all
  with pf neq fl sz show ?thesis
    by (simp add: free_def free_unlink_def)
qed

subsection \<open>The invariant is kept\<close>

lemma heap_inv_grow:
  assumes inv: "heap_inv s xs" and v: "valid_size n"
    and ok: "\<not> sbrk_fails (sizeof_header_t + n) s"
  shows "heap_inv (malloc_link (brk s) n (s\<lparr>brk := brk s + (sizeof_header_t + n)\<rparr>))
           (xs @ [brk s])"
proof -
  let ?b = "brk s"
  let ?new = "\<lparr>s_size = n, s_is_free = False, s_next = NULL\<rparr>"
  let ?s1 = "s\<lparr>brk := ?b + (sizeof_header_t + n)\<rparr>"
  note g = sbrk_grow_ok [OF v ok]
  have cw: "chain_wf s xs" using inv by (rule heap_inv_chain)
  have b0: "?b \<noteq> NULL" and ble: "?b \<le> brk_limit s"
    and lim: "uint (brk_limit s) < 2 ^ 63"
    using inv by (simp_all add: heap_inv_def)
  have "0 \<le> uint n" "0 \<le> uint ?b" by simp_all
  with g(2) have "uint (?b + (sizeof_header_t + n)) \<noteq> 0"
    by linarith
  then have nb0: "?b + (sizeof_header_t + n) \<noteq> NULL" by auto
  have nble: "?b + (sizeof_header_t + n) \<le> brk_limit s"
    using g(2,3) by (intro word_le_from_uint) simp
  have be: "block_end (h(?b := ?new)) ?b = uint (?b + (sizeof_header_t + n))" for h
    using g(2) by (simp add: block_end_def)
  show ?thesis
  proof (cases "xs = []")
    case True
    with chain_wf_NULL_iff [OF cw] have "head s = NULL" "tail s = NULL" by simp_all
    then have "malloc_link ?b n ?s1 =
        ?s1\<lparr>hdrs := (hdrs s)(?b := ?new), head := ?b, tail := ?b\<rparr>"
      by (simp add: malloc_link_empty)
    then show ?thesis
      using True b0 nb0 nble v be [of "hdrs s"] lim
      by (simp add: heap_inv_def chain_wf_def)
  next
    case False
    let ?t = "last xs"
    let ?h1 = "(hdrs s)(?b := ?new)"
    let ?h2 = "?h1(?t := (?h1 ?t)\<lparr>s_next := ?b\<rparr>)"
    from False chain_wf_NULL_iff [OF cw] have ht: "head s \<noteq> NULL" "tail s \<noteq> NULL"
      by simp_all
    from False cw have t: "tail s = ?t" by (simp add: chain_wf_def)
    with ht have ml: "malloc_link ?b n ?s1 = ?s1\<lparr>hdrs := ?h2, tail := ?b\<rparr>"
      by (simp add: malloc_link_nonempty)
    have nin: "?b \<notin> set xs" using heap_inv_mem(4) [OF inv] by blast
    with False have tb: "?t \<noteq> ?b" by (metis last_in_set)
    have d: "distinct (xs @ [?b])"
      using heap_inv_distinct [OF inv] nin by simp
    have keep: "s_next (?h2 x) = s_next (hdrs s x)" if "x \<in> set (butlast xs)" for x
    proof -
      from that have "x \<in> set xs" by (rule in_set_butlastD)
      with nin have "x \<noteq> ?b" by auto
      moreover from that heap_inv_distinct [OF inv] have "x \<noteq> ?t"
        by (rule distinct_last_butlast [rotated])
      ultimately show ?thesis by simp
    qed
    have p: "path ?h2 (head s) (xs @ [?b])"
    proof (rule path_snoc [where h = "hdrs s"])
      show "path (hdrs s) (head s) xs" using cw by (simp add: chain_wf_def)
      show "xs \<noteq> []" by (rule False)
      show "distinct (xs @ [?b])" by (rule d)
      show "?b \<noteq> NULL" by (rule b0)
      show "s_next (?h2 ?t) = ?b" by simp
      show "s_next (?h2 ?b) = NULL" using tb by simp
      show "\<And>x. x \<in> set (butlast xs) \<Longrightarrow> s_next (?h2 x) = s_next (hdrs s x)"
        by (rule keep)
    qed
    have "tiles ?h2 (uint (hd xs)) xs (uint ?b) = tiles (hdrs s) (uint (hd xs)) xs (uint ?b)"
      using nin by (intro tiles_cong) auto
    with heap_inv_tiles [OF inv False]
    have t1: "tiles ?h2 (uint (hd xs)) xs (uint ?b)" by simp
    have "block_end ?h2 ?b = uint (?b + (sizeof_header_t + n))"
      using tb be [of "hdrs s"] by (simp add: block_end_def)
    with t1 v tb have t2: "tiles ?h2 (uint (hd xs)) (xs @ [?b]) (uint (?b + (sizeof_header_t + n)))"
      by (simp add: tiles_snoc)
    from False have "hd (xs @ [?b]) = hd xs" by simp
    with p t2 nb0 nble lim show ?thesis
      unfolding ml by (simp add: heap_inv_def chain_wf_def)
  qed
qed

lemma heap_inv_free_single:
  assumes inv: "heap_inv s [x]"
  shows "heap_inv (s\<lparr>head := NULL, tail := NULL, brk := x\<rparr>) []"
proof -
  have x: "x \<in> set [x]" by simp
  have "x \<noteq> NULL" using inv x by (rule heap_inv_mem)
  moreover have "block_end (hdrs s) x \<le> uint (brk s)" using inv x by (rule heap_inv_mem)
  with block_end_gt [of x "hdrs s"] have "uint x \<le> uint (brk s)" by linarith
  then have "x \<le> brk s" by (rule word_le_from_uint)
  moreover from inv have "brk s \<le> brk_limit s" by (simp add: heap_inv_def)
  ultimately have "x \<noteq> NULL" "x \<le> brk_limit s" by simp_all
  moreover from inv have "uint (brk_limit s) < 2 ^ 63" by (simp add: heap_inv_def)
  ultimately show ?thesis by (simp add: heap_inv_def chain_wf_def)
qed

lemma heap_inv_free_multi:
  assumes inv: "heap_inv s (ys @ [x])" and ne: "ys \<noteq> []"
  shows "heap_inv (s\<lparr>hdrs := (hdrs s)(last ys := (hdrs s (last ys))\<lparr>s_next := NULL\<rparr>),
                     tail := last ys, brk := x\<rparr>) ys"
proof -
  let ?h = "(hdrs s)(last ys := (hdrs s (last ys))\<lparr>s_next := NULL\<rparr>)"
  have x: "x \<in> set (ys @ [x])" by simp
  have x0: "x \<noteq> NULL" using inv x by (rule heap_inv_mem)
  have "block_end (hdrs s) x \<le> uint (brk s)" using inv x by (rule heap_inv_mem)
  with block_end_gt [of x "hdrs s"] have "uint x \<le> uint (brk s)" by linarith
  then have "x \<le> brk s" by (rule word_le_from_uint)
  moreover from inv have "brk s \<le> brk_limit s" by (simp add: heap_inv_def)
  ultimately have xl: "x \<le> brk_limit s" by simp
  from inv have lim: "uint (brk_limit s) < 2 ^ 63" by (simp add: heap_inv_def)
  have d: "distinct (ys @ [x])" using inv by (rule heap_inv_distinct)
  have p0: "path (hdrs s) (head s) (ys @ [x])"
    using inv by (simp add: heap_inv_def chain_wf_def)
  have p: "path ?h (head s) ys"
  proof (rule path_butlast [OF p0 ne d])
    show "s_next (?h (last ys)) = NULL" by simp
    fix z assume "z \<in> set (butlast ys)"
    with d have "z \<noteq> last ys" by (intro distinct_last_butlast) auto
    then show "s_next (?h z) = s_next (hdrs s z)" by simp
  qed
  from ne have hd: "hd (ys @ [x]) = hd ys" by simp
  have "tiles (hdrs s) (uint (hd ys)) ys (uint x)"
    using heap_inv_tiles [OF inv] hd by (simp add: tiles_snoc)
  moreover have "tiles ?h (uint (hd ys)) ys (uint x) = tiles (hdrs s) (uint (hd ys)) ys (uint x)"
    by (rule tiles_cong) simp
  ultimately have t: "tiles ?h (uint (hd ys)) ys (uint x)" by simp
  from p t x0 xl lim ne show ?thesis by (simp add: heap_inv_def chain_wf_def)
qed

lemma malloc_total:
  assumes inv: "heap_inv s xs" and v: "valid_size n"
  shows "\<exists>p s' xs'. malloc n s = Some (p, s') \<and> heap_inv s' xs'
           \<and> (xs' = xs \<or> xs' = xs @ [brk s])"
proof -
  have cw: "chain_wf s xs" using inv by (rule heap_inv_chain)
  consider (zero) "n = 0"
    | (reuse) "n \<noteq> 0" "first_fit (hdrs s) n xs \<noteq> NULL"
    | (fail) "n \<noteq> 0" "first_fit (hdrs s) n xs = NULL" "sbrk_fails (sizeof_header_t + n) s"
    | (grow) "n \<noteq> 0" "first_fit (hdrs s) n xs = NULL" "\<not> sbrk_fails (sizeof_header_t + n) s"
    by blast
  then show ?thesis
  proof cases
    case zero
    with inv show ?thesis by auto
  next
    case reuse
    with malloc_reuse_eq [OF cw reuse(1) refl] heap_inv_reuse [OF inv] show ?thesis
      by blast
  next
    case fail
    with malloc_fail_eq [OF cw] inv show ?thesis by blast
  next
    case grow
    with malloc_grow_eq [OF cw grow(1,2) v] heap_inv_grow [OF inv v] show ?thesis
      by blast
  qed
qed

lemma free_total:
  assumes inv: "heap_inv s xs" and x: "x \<in> set xs"
  shows "\<exists>s'. free (x + sizeof_header_t) s = Some s'
           \<and> heap_inv s' (if x = last xs then butlast xs else xs)"
proof (cases "x = last xs")
  case False
  with free_mark_eq [OF inv x] heap_inv_flag [OF inv] show ?thesis by simp
next
  case True
  from x have "xs \<noteq> []" by auto
  with True have xs: "butlast xs @ [x] = xs" by simp
  show ?thesis
  proof (cases "butlast xs = []")
    case e: True
    from inv have i: "heap_inv s [x]"
      by (subst (asm) xs [symmetric]) (simp add: e)
    from free_last_single_eq [OF i] heap_inv_free_single [OF i] True e show ?thesis
      by simp
  next
    case ne: False
    from inv have i: "heap_inv s (butlast xs @ [x])"
      by (simp only: xs)
    from free_last_multi_eq [OF i ne] heap_inv_free_multi [OF i ne] True show ?thesis
      by simp
  qed
qed

lemma calloc_total:
  assumes inv: "heap_inv s xs" and v: "valid_size (num * nsize)"
  shows "\<exists>p s' xs'. calloc num nsize s = Some (p, s') \<and> heap_inv s' xs'"
proof -
  from malloc_total [OF inv v] obtain p s' xs'
    where m: "malloc (num * nsize) s = Some (p, s')" and i: "heap_inv s' xs'"
    by blast
  then have "heap_inv (memset p 0 (num * nsize) s') xs'"
    by (simp add: memset_def)
  with m i inv show ?thesis
    by (auto simp: calloc_def Let_def)
qed

lemma realloc_total:
  assumes inv: "heap_inv s xs" and x: "x \<in> set xs" and v: "valid_size n"
  shows "\<exists>p s' xs'. realloc (x + sizeof_header_t) n s = Some (p, s') \<and> heap_inv s' xs'"
proof -
  note pf = payload_facts [OF inv x]
  from malloc_total [OF inv v] obtain q s1 xs1
    where m: "malloc n s = Some (q, s1)" and i1: "heap_inv s1 xs1"
      and xs1: "xs1 = xs \<or> xs1 = xs @ [brk s]"
    by blast
  from xs1 x have x1: "x \<in> set xs1" by auto
  let ?s2 = "memcpy q (x + sizeof_header_t) (s_size (hdrs s1 x)) s1"
  from i1 have i2: "heap_inv ?s2 xs1" by (simp add: memcpy_def)
  from free_total [OF i2 x1] obtain s3
    where f: "free (x + sizeof_header_t) ?s2 = Some s3"
      and i3: "heap_inv s3 (if x = last xs1 then butlast xs1 else xs1)"
    by blast
  show ?thesis
  proof (cases "n = 0 \<or> n \<le> s_size (hdrs s x) \<or> q = NULL")
    case True
    with pf m inv i1 show ?thesis
      by (auto simp: realloc_def Let_def)
  next
    case False
    with pf m f have "realloc (x + sizeof_header_t) n s = Some (q, s3)"
      by (simp add: realloc_def Let_def)
    with i3 show ?thesis by blast
  qed
qed

lemma reachable_heap_inv: "reachable s \<Longrightarrow> \<exists>xs. heap_inv s xs"
proof (induction rule: reachable.induct)
  case (start s)
  then show ?case by (blast intro: heap_inv_start)
next
  case (after_malloc s n p s')
  then obtain xs where "heap_inv s xs" by blast
  from malloc_total [OF this after_malloc.hyps(2)] after_malloc.hyps(3)
  show ?case by auto
next
  case (after_free s xs x s')
  then obtain ys where i: "heap_inv s ys" by blast
  with after_free.hyps(2) have "ys = xs"
    by (blast dest: heap_inv_chain chain_wf_unique)
  with i after_free.hyps(3) have "x \<in> set ys" by simp
  from free_total [OF i this] after_free.hyps(4) show ?case by auto
next
  case (after_calloc s num nsize p s')
  then obtain xs where "heap_inv s xs" by blast
  from calloc_total [OF this after_calloc.hyps(2)] after_calloc.hyps(3)
  show ?case by auto
next
  case (after_realloc s xs x n p s')
  then obtain ys where i: "heap_inv s ys" by blast
  with after_realloc.hyps(2) have "ys = xs"
    by (blast dest: heap_inv_chain chain_wf_unique)
  with i after_realloc.hyps(3) have "x \<in> set ys" by simp
  from realloc_total [OF i this after_realloc.hyps(4)] after_realloc.hyps(5)
  show ?case by auto
next
  case (after_write s m)
  then show ?case by simp
qed

lemma reachable_chain: "reachable s \<Longrightarrow> chain_wf s xs \<Longrightarrow> heap_inv s xs"
  by (blast dest: reachable_heap_inv heap_inv_chain chain_wf_unique)

subsection \<open>The effect of a call on blocks and bytes\<close>

lemma free_tail_chain:
  assumes inv: "heap_inv s xs" and x: "x \<in> set xs" and l: "x = last xs"
  shows "\<exists>s'. free (x + sizeof_header_t) s = Some s' \<and> heap_inv s' (butlast xs)
     \<and> brk s' = x \<and> mem s' = mem s \<and> head s' = (if butlast xs = [] then NULL else head s)"
proof -
  from x have "xs \<noteq> []" by auto
  with l have xs: "butlast xs @ [x] = xs" by simp
  show ?thesis
  proof (cases "butlast xs = []")
    case True
    from inv have i: "heap_inv s [x]"
      by (subst (asm) xs [symmetric]) (simp add: True)
    from free_last_single_eq [OF i] heap_inv_free_single [OF i] True show ?thesis
      by simp
  next
    case False
    from inv have i: "heap_inv s (butlast xs @ [x])" by (simp only: xs)
    from free_last_multi_eq [OF i False] heap_inv_free_multi [OF i False] False
    show ?thesis by simp
  qed
qed

lemma malloc_effect:
  assumes inv: "heap_inv s xs" and v: "valid_size n" and n: "n \<noteq> 0"
  shows "malloc n s = Some (NULL, s)
     \<or> (\<exists>g s1 xs1. malloc n s = Some (g + sizeof_header_t, s1)
           \<and> g + sizeof_header_t \<noteq> NULL \<and> heap_inv s1 xs1 \<and> g \<in> set xs1
           \<and> set xs \<subseteq> set xs1
           \<and> \<not> s_is_free (hdrs s1 g) \<and> n \<le> s_size (hdrs s1 g) \<and> mem s1 = mem s
           \<and> (\<forall>y\<in>set xs. s_size (hdrs s1 y) = s_size (hdrs s y))
           \<and> (\<forall>y\<in>set xs. \<not> s_is_free (hdrs s y) \<longrightarrow> y \<noteq> g))"
proof -
  have cw: "chain_wf s xs" using inv by (rule heap_inv_chain)
  let ?f = "first_fit (hdrs s) n xs"
  consider (reuse) "?f \<noteq> NULL"
    | (fail) "?f = NULL" "sbrk_fails (sizeof_header_t + n) s"
    | (grow) "?f = NULL" "\<not> sbrk_fails (sizeof_header_t + n) s"
    by blast
  then show ?thesis
  proof cases
    case reuse
    let ?s1 = "malloc_reuse ?f s"
    have fx: "?f \<in> set xs" using reuse by (rule first_fit_mem)
    have m: "malloc n s = Some (?f + sizeof_header_t, ?s1)"
      using cw n refl reuse by (rule malloc_reuse_eq)
    have "?f + sizeof_header_t \<noteq> NULL" using inv fx by (rule payload_facts)
    moreover have "heap_inv ?s1 xs" using inv by (rule heap_inv_reuse)
    moreover have "\<not> s_is_free (hdrs ?s1 ?f)" "n \<le> s_size (hdrs ?s1 ?f)" "mem ?s1 = mem s"
      using first_fit_fits [OF reuse] by (simp_all add: malloc_reuse_def)
    moreover have "\<forall>y\<in>set xs. s_size (hdrs ?s1 y) = s_size (hdrs s y)"
      by (simp add: malloc_reuse_def)
    moreover have "\<forall>y\<in>set xs. \<not> s_is_free (hdrs s y) \<longrightarrow> y \<noteq> ?f"
      using first_fit_fits [OF reuse] by auto
    ultimately show ?thesis using m fx by blast
  next
    case fail
    with malloc_fail_eq [OF cw n] show ?thesis by simp
  next
    case grow
    let ?b = "brk s"
    let ?new = "\<lparr>s_size = n, s_is_free = False, s_next = NULL\<rparr>"
    let ?s0 = "s\<lparr>brk := ?b + (sizeof_header_t + n)\<rparr>"
    let ?s1 = "malloc_link ?b n ?s0"
    have m: "malloc n s = Some (?b + sizeof_header_t, ?s1)"
      using cw n grow(1) v grow(2) by (rule malloc_grow_eq)
    have i1: "heap_inv ?s1 (xs @ [?b])" using inv v grow(2) by (rule heap_inv_grow)
    have le: "?b \<le> brk_limit s" and lim: "uint (brk_limit s) < 2 ^ 63"
      using inv by (simp_all add: heap_inv_def)
    have p0: "?b + sizeof_header_t \<noteq> NULL" using le lim by (rule low_break_facts)
    have nin: "?b \<notin> set xs" using heap_inv_mem(4) [OF inv] by blast
    have hd: "hdrs ?s1 ?b = ?new \<and> mem ?s1 = mem s
        \<and> (\<forall>y\<in>set xs. s_size (hdrs ?s1 y) = s_size (hdrs s y))"
    proof (cases "xs = []")
      case True
      with chain_wf_NULL_iff [OF cw] have "head ?s0 = NULL" "tail ?s0 = NULL" by simp_all
      from malloc_link_empty [OF this] True show ?thesis by simp
    next
      case False
      with chain_wf_NULL_iff [OF cw] have ht: "head ?s0 \<noteq> NULL" "tail ?s0 \<noteq> NULL"
        by simp_all
      from False cw have "tail ?s0 = last xs" by (simp add: chain_wf_def)
      moreover from False nin have "last xs \<noteq> ?b" by (metis last_in_set)
      ultimately show ?thesis
        using malloc_link_nonempty [OF ht, of ?b n] nin by auto
    qed
    then have "\<not> s_is_free (hdrs ?s1 ?b)" "n \<le> s_size (hdrs ?s1 ?b)" by simp_all
    moreover have "\<forall>y\<in>set xs. \<not> s_is_free (hdrs s y) \<longrightarrow> y \<noteq> ?b" using nin by auto
    moreover have "?b \<in> set (xs @ [?b])" "set xs \<subseteq> set (xs @ [?b])" by auto
    ultimately show ?thesis using m i1 p0 hd by blast
  qed
qed

lemma free_effect:
  assumes inv: "heap_inv s xs" and x: "x \<in> set xs"
  shows "\<exists>s' xs'. free (x + sizeof_header_t) s = Some s' \<and> heap_inv s' xs'
     \<and> mem s' = mem s \<and> set xs - {x} \<subseteq> set xs'
     \<and> (x \<in> set xs' \<longrightarrow> s_is_free (hdrs s' x))
     \<and> (\<forall>y. y \<noteq> x \<longrightarrow> s_is_free (hdrs s' y) = s_is_free (hdrs s y))
     \<and> (\<forall>y. s_size (hdrs s' y) = s_size (hdrs s y))"
proof (cases "x = last xs")
  case False
  let ?s' = "s\<lparr>hdrs := (hdrs s)(x := (hdrs s x)\<lparr>s_is_free := True\<rparr>)\<rparr>"
  have "free (x + sizeof_header_t) s = Some ?s'" using inv x False by (rule free_mark_eq)
  moreover have "heap_inv ?s' xs" using inv by (rule heap_inv_flag)
  ultimately show ?thesis by (intro exI [of _ ?s'] exI [of _ xs]) auto
next
  case True
  from x have "xs \<noteq> []" by auto
  with True have xs: "butlast xs @ [x] = xs" by simp
  have d: "distinct xs" using inv by (rule heap_inv_distinct)
  with xs have xn: "x \<notin> set (butlast xs)" by (metis distinct_last_butlast True)
  have sub: "set xs - {x} \<subseteq> set (butlast xs)"
    using arg_cong [OF xs, of set] by auto
  show ?thesis
  proof (cases "butlast xs = []")
    case e: True
    from inv have i: "heap_inv s [x]"
      by (subst (asm) xs [symmetric]) (simp add: e)
    let ?s' = "s\<lparr>head := NULL, tail := NULL, brk := x\<rparr>"
    from free_last_single_eq [OF i] heap_inv_free_single [OF i] e sub
    show ?thesis by (intro exI [of _ ?s'] exI [of _ "[]"]) auto
  next
    case ne: False
    from inv have i: "heap_inv s (butlast xs @ [x])" by (simp only: xs)
    let ?l = "last (butlast xs)"
    let ?s' = "s\<lparr>hdrs := (hdrs s)(?l := (hdrs s ?l)\<lparr>s_next := NULL\<rparr>), tail := ?l, brk := x\<rparr>"
    from free_last_multi_eq [OF i ne] heap_inv_free_multi [OF i ne] xn sub
    show ?thesis by (intro exI [of _ ?s'] exI [of _ "butlast xs"]) auto
  qed
qed

lemma free_loop_mem:
  assumes "free_loop s tmp = Some s'"
  shows "mem s' = mem s"
proof (rule free_loop.raw_induct [where P = "\<lambda>s tmp s'. mem s' = mem s", OF _ assms])
  fix f :: "heap_state \<Rightarrow> ptr \<Rightarrow> heap_state option" and s tmp s'
  assume ih: "\<And>s tmp s'. f s tmp = Some s' \<Longrightarrow> mem s' = mem s"
    and b: "(if tmp = NULL then Some s
      else if s_next (hdrs s tmp) = tail s
      then f (s\<lparr>hdrs := (hdrs s)(tmp := (hdrs s tmp)\<lparr>s_next := NULL\<rparr>), tail := tmp\<rparr>)
             (s_next (((hdrs s)(tmp := (hdrs s tmp)\<lparr>s_next := NULL\<rparr>)) tmp))
      else f s (s_next (hdrs s tmp))) = Some s'"
  show "mem s' = mem s"
  proof (cases "tmp = NULL")
    case True
    with b show ?thesis by simp
  next
    case False
    show ?thesis
    proof (cases "s_next (hdrs s tmp) = tail s")
      case True
      with False b ih [of "s\<lparr>hdrs := (hdrs s)(tmp := (hdrs s tmp)\<lparr>s_next := NULL\<rparr>),
          tail := tmp\<rparr>" _ s']
      show ?thesis by simp
    next
      case n: False
      with False b ih [of s _ s'] show ?thesis by simp
    qed
  qed
qed

lemma sbrk_mem [simp]: "mem (snd (sbrk i s)) = mem s" "hdrs (snd (sbrk i s)) = hdrs s"
  by (simp_all add: sbrk_def)

lemma free_mem: "free p s = Some s' \<Longrightarrow> mem s' = mem s"
  by (auto simp: free_def free_unlink_def Let_def split: if_splits option.splits
      dest: free_loop_mem)

lemma malloc_mem: "malloc n s = Some (q, s1) \<Longrightarrow> mem s1 = mem s"
  by (auto simp: malloc_def malloc_reuse_def malloc_link_def Let_def sbrk_def
      split: if_splits option.splits)

lemma malloc_keeps_size:
  assumes "malloc n s = Some (q, s1)" and "x \<noteq> brk s"
  shows "s_size (hdrs s1 x) = s_size (hdrs s x)"
  using assms
  by (auto simp: malloc_def malloc_reuse_def malloc_link_def Let_def sbrk_def
      split: if_splits option.splits)

section \<open>Running the example states\<close>

lemmas run_simps =
  malloc_def get_free_block_def get_free_block_loop_NULL get_free_block_loop_hit
  get_free_block_loop_miss malloc_reuse_def malloc_link_def sbrk_def sbrk_fails_def
  free_def free_unlink_def free_loop_NULL free_loop_hit free_loop_miss
  sizeof_header_t_def Let_def hdrs_none_def

lemma step_empty_A: "malloc 8 st_empty = Some (4120, st_A)"
  by (simp add: run_simps st_empty_def st_A_def)

lemma step_A_AB: "malloc 8 st_A = Some (4152, st_AB)"
  by (simp add: run_simps st_A_def st_AB_def fun_upd_twist)

lemma step_AB_fB: "free 4120 st_AB = Some st_fB"
  by (simp add: run_simps st_AB_def st_fB_def fun_upd_twist)

lemma step_fB_AB: "malloc 8 st_fB = Some (4120, st_AB)"
  by (simp add: run_simps st_AB_def st_fB_def fun_upd_twist)

lemma step_fB_f: "free 4152 st_fB = Some st_f"
  by (simp add: run_simps st_fB_def st_f_def fun_upd_twist)

lemma step_f_A': "malloc 8 st_f = Some (4120, st_A')"
  by (simp add: run_simps st_f_def st_A'_def fun_upd_twist)

lemma step_A'_empty': "free 4120 st_A' = Some st_empty'"
  by (simp add: run_simps st_A'_def st_empty'_def fun_upd_twist)

lemma valid_size_8: "valid_size 8"
  by (simp add: valid_size_def)

lemma reachable_st_A: "reachable st_A"
proof -
  have "reachable st_empty"
    by (rule reachable.start) (simp_all add: st_empty_def)
  moreover have "valid_size 8" by (simp add: valid_size_def)
  ultimately show ?thesis using step_empty_A by (rule reachable.after_malloc)
qed

lemma chain_wf_st_A: "chain_wf st_A [4096]"
  by (simp add: chain_wf_def st_A_def)

lemma reachable_st_AB: "reachable st_AB"
  using reachable_st_A valid_size_8 step_A_AB by (rule reachable.after_malloc)

lemma chain_wf_st_AB: "chain_wf st_AB [4096, 4128]"
  by (simp add: chain_wf_def st_AB_def)

lemma reachable_st_fB: "reachable st_fB"
proof -
  have "(4096 :: 64 word) \<in> set [4096, 4128]" by simp
  moreover have "free (4096 + sizeof_header_t) st_AB = Some st_fB"
    using step_AB_fB by (simp add: sizeof_header_t_def)
  ultimately show ?thesis
    using reachable_st_AB chain_wf_st_AB by (blast intro: reachable.after_free)
qed

lemma chain_wf_st_fB: "chain_wf st_fB [4096, 4128]"
  by (simp add: chain_wf_def st_fB_def)

lemma reachable_st_f: "reachable st_f"
proof -
  have "(4128 :: 64 word) \<in> set [4096, 4128]" by simp
  moreover have "free (4128 + sizeof_header_t) st_fB = Some st_f"
    using step_fB_f by (simp add: sizeof_header_t_def)
  ultimately show ?thesis
    using reachable_st_fB chain_wf_st_fB by (blast intro: reachable.after_free)
qed

lemma chain_wf_st_f: "chain_wf st_f [4096]"
  by (simp add: chain_wf_def st_f_def)

lemma reachable_st_A_hi: "reachable st_A_hi"
  unfolding st_A_hi_def using reachable_st_A by (rule reachable.after_write)

subsection \<open>Requests of a wrapping size\<close>

lemma wrap_sizes:
  "sizeof_header_t + (18446744073709551592 :: 64 word) = 0"
  "sint (sizeof_header_t + (18446744073709551560 :: 64 word)) = - 32"
  "\<not> valid_size 18446744073709551592"
  "\<not> valid_size 18446744073709551560"
  by (simp_all add: sizeof_header_t_def valid_size_def)

lemma step_A_wrap: "malloc 18446744073709551592 st_A = Some (4152, st_wrap)"
  by (simp add: run_simps st_A_def st_wrap_def fun_upd_twist)

lemma step_wrap_cyc: "malloc 8 st_wrap = Some (4152, st_cyc)"
  by (simp add: run_simps st_wrap_def st_cyc_def fun_upd_twist)

lemma step_wrap_freed: "free 4120 st_wrap = Some st_wrap_freed"
  by (simp add: run_simps st_wrap_def st_wrap_freed_def fun_upd_twist)

lemma step_wrap_grown: "malloc 8 st_wrap_freed = Some (4120, st_wrap_grown)"
  by (simp add: run_simps st_wrap_freed_def st_wrap_grown_def fun_upd_twist)

lemma step_AB_neg: "malloc 18446744073709551560 st_AB = Some (4184, st_neg)"
  by (simp add: run_simps st_AB_def st_neg_def fun_upd_twist)

lemma step_neg_freed: "free 4120 st_neg = Some st_neg_freed"
  by (simp add: run_simps st_neg_def st_neg_freed_def fun_upd_twist)

lemma step_hi_realloc:
  "realloc 4120 18446744073709551592 st_A_hi = Some (4152, st_hi_realloc)"
  by (simp add: realloc_def memcpy_def run_simps st_A_hi_def st_A_def st_hi_realloc_def
      fun_upd_twist cong: if_cong)

text \<open>The scan does not return from a block that is its own successor and does not fit.\<close>

lemma self_loop_diverges:
  assumes "cur \<noteq> NULL" and "s_next (h cur) = cur"
    and "\<not> (s_is_free (h cur) \<and> n \<le> s_size (h cur))"
  shows "get_free_block_loop h n cur = None"
proof (rule ccontr)
  assume "get_free_block_loop h n cur \<noteq> None"
  then obtain y where e: "get_free_block_loop h n cur = Some y" by auto
  have "cur \<noteq> NULL \<longrightarrow> s_next (h cur) = cur
      \<longrightarrow> \<not> (s_is_free (h cur) \<and> n \<le> s_size (h cur)) \<longrightarrow> False"
    by (rule get_free_block_loop.raw_induct
        [where P = "\<lambda>h n cur y. cur \<noteq> NULL \<longrightarrow> s_next (h cur) = cur
           \<longrightarrow> \<not> (s_is_free (h cur) \<and> n \<le> s_size (h cur)) \<longrightarrow> False", OF _ e])
      (auto split: if_splits)
  with assms show False by simp
qed

lemma scan_st_cyc: "get_free_block 8 st_cyc = None"
proof -
  have "get_free_block_loop (hdrs st_cyc) 8 4128 = None"
    by (rule self_loop_diverges) (simp_all add: st_cyc_def)
  moreover have "get_free_block_loop (hdrs st_cyc) 8 4096
      = get_free_block_loop (hdrs st_cyc) 8 4128"
    by (subst get_free_block_loop.simps) (simp add: st_cyc_def)
  moreover have "head st_cyc = 4096"
    by (simp add: st_cyc_def)
  ultimately show ?thesis
    by (simp only: get_free_block_def)
qed

lemma st_cyc_not_wf: "\<not> chain_wf st_cyc xs"
proof
  assume "chain_wf st_cyc xs"
  then have "get_free_block 8 st_cyc = Some (first_fit (hdrs st_cyc) 8 xs)"
    by (rule get_free_block_chain)
  with scan_st_cyc show False by simp
qed

section \<open>The claims\<close>

subsection \<open>C1: the chain invariant, and the size that breaks it\<close>

text \<open>
  As long as every requested size \<open>n\<close> satisfies \<open>24 + n < 2\<^sup>6\<^sup>3\<close>, the chain is well formed.
  In every state reached from an empty heap by calls with such sizes, with payload
  pointers of blocks of the chain and with the null pointer, there is a list \<open>xs\<close> of the
  blocks that exist with \<open>chain_wf s xs\<close>: following \<^verbatim>\<open>next\<close> from \<^verbatim>\<open>head\<close> visits exactly
  \<open>xs\<close> and ends with the null pointer after \<^verbatim>\<open>tail\<close>, the last block; \<^verbatim>\<open>head\<close> is null iff
  \<^verbatim>\<open>tail\<close> is null iff there is no block.  From such a state each of \<^verbatim>\<open>malloc\<close>, \<^verbatim>\<open>free\<close>,
  \<^verbatim>\<open>calloc\<close> and \<^verbatim>\<open>realloc\<close> returns, and the state it returns is again of this kind.
\<close>

lemma chain_wf_invariant:
  assumes "reachable s"
  shows "\<exists>xs. chain_wf s xs
     \<and> (head s = NULL \<longleftrightarrow> xs = []) \<and> (tail s = NULL \<longleftrightarrow> xs = [])
     \<and> (\<forall>n. valid_size n \<longrightarrow>
          (\<exists>p s' xs'. malloc n s = Some (p, s') \<and> reachable s' \<and> chain_wf s' xs'))
     \<and> (\<forall>x\<in>set xs.
          \<exists>s' xs'. free (x + sizeof_header_t) s = Some s' \<and> reachable s' \<and> chain_wf s' xs')
     \<and> (\<forall>num nsize. valid_size (num * nsize) \<longrightarrow>
          (\<exists>p s' xs'. calloc num nsize s = Some (p, s') \<and> reachable s' \<and> chain_wf s' xs'))
     \<and> (\<forall>x\<in>set xs. \<forall>n. valid_size n \<longrightarrow>
          (\<exists>p s' xs'. realloc (x + sizeof_header_t) n s = Some (p, s')
             \<and> reachable s' \<and> chain_wf s' xs'))
     \<and> free NULL s = Some s
     \<and> (\<forall>n. valid_size n \<longrightarrow>
          (\<exists>p s' xs'. realloc NULL n s = Some (p, s') \<and> reachable s' \<and> chain_wf s' xs'))"
proof -
  from assms obtain xs where inv: "heap_inv s xs"
    by (blast dest: reachable_heap_inv)
  then have cw: "chain_wf s xs" by (rule heap_inv_chain)
  have m: "\<exists>p s' xs'. malloc n s = Some (p, s') \<and> reachable s' \<and> chain_wf s' xs'"
    if "valid_size n" for n
    using malloc_total [OF inv that] reachable.after_malloc [OF assms that]
    by (blast dest: heap_inv_chain)
  have f: "\<exists>s' xs'. free (x + sizeof_header_t) s = Some s' \<and> reachable s' \<and> chain_wf s' xs'"
    if "x \<in> set xs" for x
    using free_total [OF inv that] reachable.after_free [OF assms cw that]
    by (blast dest: heap_inv_chain)
  have c: "\<exists>p s' xs'. calloc num nsize s = Some (p, s') \<and> reachable s' \<and> chain_wf s' xs'"
    if "valid_size (num * nsize)" for num nsize
    using calloc_total [OF inv that] reachable.after_calloc [OF assms that]
    by (blast dest: heap_inv_chain)
  have r: "\<exists>p s' xs'. realloc (x + sizeof_header_t) n s = Some (p, s')
      \<and> reachable s' \<and> chain_wf s' xs'"
    if "x \<in> set xs" and "valid_size n" for x n
    using realloc_total [OF inv that] reachable.after_realloc [OF assms cw that]
    by (blast dest: heap_inv_chain)
  have r0: "\<exists>p s' xs'. realloc NULL n s = Some (p, s') \<and> reachable s' \<and> chain_wf s' xs'"
    if "valid_size n" for n
    using m [OF that] by (simp add: realloc_def)
  have f0: "free NULL s = Some s" by simp
  from cw chain_wf_NULL_iff [OF cw] m f c r f0 r0 show ?thesis by blast
qed

lemma chain_wf_invariant_witness:
  "reachable st_A
   \<and> (\<exists>xs. chain_wf st_A xs \<and> xs \<noteq> []
        \<and> (\<exists>p s' xs'. malloc 8 st_A = Some (p, s') \<and> reachable s' \<and> chain_wf s' xs')
        \<and> (\<forall>x\<in>set xs. \<exists>s' xs'. free (x + sizeof_header_t) st_A = Some s'
              \<and> reachable s' \<and> chain_wf s' xs'))"
proof -
  have v: "valid_size 8" by (simp add: valid_size_def)
  have h: "head st_A \<noteq> NULL" by (simp add: st_A_def)
  from chain_wf_invariant [OF reachable_st_A] v h reachable_st_A show ?thesis
    by blast
qed

text \<open>
  C1.  Chain well-formedness is an invariant of the four operations: the chain from
  \<^verbatim>\<open>head\<close> ends exactly at \<^verbatim>\<open>tail\<close>, and every operation applied to a state with a
  well-formed chain yields such a state.  The code does not keep it, because \<^verbatim>\<open>malloc\<close>
  does not check the sum \<^verbatim>\<open>sizeof(header_t) + size\<close>.  From the empty heap, \<open>malloc(8)\<close> and
  then \<open>malloc(2\<^sup>6\<^sup>4 - 24)\<close>: the sum wraps to 0, \<^verbatim>\<open>sbrk(0)\<close> returns the break 4128 without
  moving it, and the new header is written there; the chain, 4096 then 4128, is still
  well formed.  The next \<open>malloc(8)\<close> gets 4128 from \<^verbatim>\<open>sbrk\<close> once more, returns the pointer
  4152 a second time and, \<^verbatim>\<open>tail\<close> being 4128, makes the block at 4128 its own successor:
  the chain from \<^verbatim>\<open>head\<close> never ends, and a further \<open>malloc(8)\<close>, which scans it, does not
  return.
\<close>

theorem chain_wf_broken_by_wrapping_size:
  "malloc 8 st_empty = Some (4120, st_A)
   \<and> malloc 18446744073709551592 st_A = Some (4152, st_wrap)
   \<and> brk st_wrap = brk st_A \<and> chain_wf st_wrap [4096, 4128]
   \<and> malloc 8 st_wrap = Some (4152, st_cyc)
   \<and> head st_cyc = 4096 \<and> s_next (hdrs st_cyc 4096) = 4128
   \<and> tail st_cyc = 4128 \<and> s_next (hdrs st_cyc 4128) = 4128
   \<and> get_free_block 8 st_cyc = None \<and> malloc 8 st_cyc = None"
  using step_empty_A step_A_wrap step_wrap_cyc scan_st_cyc
  by (simp add: malloc_def chain_wf_def st_A_def st_wrap_def st_cyc_def)

subsection \<open>C2: first fit, the whole block\<close>

lemma malloc_first_block:
  assumes e: "head s0 = NULL" "tail s0 = NULL" "brk s0 \<noteq> NULL" "brk s0 \<le> brk_limit s0"
      "uint (brk_limit s0) < 2 ^ 63"
    and v: "valid_size a" and a0: "a \<noteq> 0"
    and m: "malloc a s0 = Some (pA, s1)" and p: "pA \<noteq> NULL"
  shows "pA = brk s0 + sizeof_header_t" and "heap_inv s1 [brk s0]"
    and "hdrs s1 (brk s0) = \<lparr>s_size = a, s_is_free = False, s_next = NULL\<rparr>"
proof -
  have inv: "heap_inv s0 []" using e by (rule heap_inv_start)
  then have cw: "chain_wf s0 []" by (rule heap_inv_chain)
  have nf: "first_fit (hdrs s0) a [] = NULL" by simp
  have ok: "\<not> sbrk_fails (sizeof_header_t + a) s0"
  proof
    assume "sbrk_fails (sizeof_header_t + a) s0"
    with malloc_fail_eq [OF cw a0 nf] m p show False by simp
  qed
  let ?s = "s0\<lparr>brk := brk s0 + (sizeof_header_t + a)\<rparr>"
  from malloc_grow_eq [OF cw a0 nf v ok] m
  have r: "pA = brk s0 + sizeof_header_t" "s1 = malloc_link (brk s0) a ?s"
    by simp_all
  show "pA = brk s0 + sizeof_header_t" by (rule r(1))
  from heap_inv_grow [OF inv v ok] r(2) show "heap_inv s1 [brk s0]" by simp
  from e(1,2) have "malloc_link (brk s0) a ?s =
      ?s\<lparr>hdrs := (hdrs ?s)(brk s0 := \<lparr>s_size = a, s_is_free = False, s_next = NULL\<rparr>),
         head := brk s0, tail := brk s0\<rparr>"
    by (intro malloc_link_empty) simp_all
  with r(2) show "hdrs s1 (brk s0) = \<lparr>s_size = a, s_is_free = False, s_next = NULL\<rparr>"
    by simp
qed

lemma malloc_second_block:
  assumes inv: "heap_inv s1 [x]" and live: "\<not> s_is_free (hdrs s1 x)"
    and v: "valid_size b" and b0: "b \<noteq> 0"
    and m: "malloc b s1 = Some (pB, s2)" and p: "pB \<noteq> NULL"
  shows "heap_inv s2 [x, brk s1]" and "s_size (hdrs s2 x) = s_size (hdrs s1 x)"
proof -
  have cw: "chain_wf s1 [x]" using inv by (rule heap_inv_chain)
  have nf: "first_fit (hdrs s1) b [x] = NULL" using live by simp
  have ok: "\<not> sbrk_fails (sizeof_header_t + b) s1"
  proof
    assume "sbrk_fails (sizeof_header_t + b) s1"
    with malloc_fail_eq [OF cw b0 nf] m p show False by simp
  qed
  let ?s = "s1\<lparr>brk := brk s1 + (sizeof_header_t + b)\<rparr>"
  from malloc_grow_eq [OF cw b0 nf v ok] m
  have r: "s2 = malloc_link (brk s1) b ?s" by simp
  from heap_inv_grow [OF inv v ok] r show "heap_inv s2 [x, brk s1]" by simp
  have xb: "x \<noteq> brk s1" using heap_inv_mem(4) [OF inv] by simp
  from cw have "head s1 = x" "tail s1 = x" "x \<noteq> NULL"
    by (simp_all add: chain_wf_def)
  then have "head ?s \<noteq> NULL" "tail ?s \<noteq> NULL" "tail ?s = x" by simp_all
  from malloc_link_nonempty [OF this(1,2), of "brk s1" b] this(3) r xb
  show "s_size (hdrs s2 x) = s_size (hdrs s1 x)" by simp
qed

text \<open>
  On a well-formed chain \<^verbatim>\<open>malloc(n)\<close> with \<open>n > 0\<close> returns the payload of the first block
  in chain order that is free and whose recorded size is at least \<open>n\<close>, and hands out the
  whole block: its recorded size stays, the chain has the same blocks and the break does
  not move.  On an empty heap, after \<open>pA = malloc(a)\<close>, \<open>pB = malloc(b)\<close>, both succeeding and
  with \<open>24 + a < 2\<^sup>6\<^sup>3\<close> and \<open>24 + b < 2\<^sup>6\<^sup>3\<close>, and \<open>free(pA)\<close>, a following \<open>malloc(c)\<close> with
  \<open>0 < c \<le> a \<le> b\<close> returns \<open>pA\<close> again and leaves the break where it was.
\<close>

lemma malloc_first_fit:
  "(chain_wf s xs \<and> n \<noteq> 0 \<and> xs = pre @ f # post
      \<and> s_is_free (hdrs s f) \<and> n \<le> s_size (hdrs s f)
      \<and> (\<forall>y\<in>set pre. \<not> (s_is_free (hdrs s y) \<and> n \<le> s_size (hdrs s y)))
    \<longrightarrow> (\<exists>s'. malloc n s = Some (f + sizeof_header_t, s')
          \<and> s_size (hdrs s' f) = s_size (hdrs s f) \<and> \<not> s_is_free (hdrs s' f)
          \<and> chain_wf s' xs \<and> brk s' = brk s))
   \<and> (head s0 = NULL \<and> tail s0 = NULL \<and> brk s0 \<noteq> NULL \<and> brk s0 \<le> brk_limit s0
      \<and> uint (brk_limit s0) < 2 ^ 63
      \<and> valid_size a \<and> valid_size b \<and> c \<noteq> 0 \<and> c \<le> a \<and> a \<le> b
      \<and> malloc a s0 = Some (pA, s1) \<and> pA \<noteq> NULL
      \<and> malloc b s1 = Some (pB, s2) \<and> pB \<noteq> NULL
      \<and> free pA s2 = Some s3
    \<longrightarrow> (\<exists>s4. malloc c s3 = Some (pA, s4) \<and> brk s4 = brk s3))"
proof (intro conjI impI)
  assume h: "chain_wf s xs \<and> n \<noteq> 0 \<and> xs = pre @ f # post
      \<and> s_is_free (hdrs s f) \<and> n \<le> s_size (hdrs s f)
      \<and> (\<forall>y\<in>set pre. \<not> (s_is_free (hdrs s y) \<and> n \<le> s_size (hdrs s y)))"
  then have cw: "chain_wf s xs" and n: "n \<noteq> 0" and xs: "xs = pre @ f # post" by blast+
  from h have "first_fit (hdrs s) n (pre @ f # post) = f"
    by (intro first_fit_append) simp_all
  with xs have ff: "first_fit (hdrs s) n xs = f" by simp
  from cw xs have f0: "f \<noteq> NULL" by (auto simp: chain_wf_def dest: path_not_NULL)
  from cw n ff f0 have "malloc n s = Some (f + sizeof_header_t, malloc_reuse f s)"
    by (rule malloc_reuse_eq)
  moreover have "chain_wf (malloc_reuse f s) xs" using cw by (rule chain_wf_reuse)
  ultimately show "\<exists>s'. malloc n s = Some (f + sizeof_header_t, s')
      \<and> s_size (hdrs s' f) = s_size (hdrs s f) \<and> \<not> s_is_free (hdrs s' f)
      \<and> chain_wf s' xs \<and> brk s' = brk s"
    by (simp add: malloc_reuse_def)
next
  assume h: "head s0 = NULL \<and> tail s0 = NULL \<and> brk s0 \<noteq> NULL \<and> brk s0 \<le> brk_limit s0
      \<and> uint (brk_limit s0) < 2 ^ 63
      \<and> valid_size a \<and> valid_size b \<and> c \<noteq> 0 \<and> c \<le> a \<and> a \<le> b
      \<and> malloc a s0 = Some (pA, s1) \<and> pA \<noteq> NULL
      \<and> malloc b s1 = Some (pB, s2) \<and> pB \<noteq> NULL
      \<and> free pA s2 = Some s3"
  let ?x = "brk s0"
  let ?y = "brk s1"
  from h have c0: "c \<noteq> 0" and ca: "c \<le> a" and ab: "a \<le> b" by simp_all
  from c0 ca have a0: "a \<noteq> 0" by auto
  with ab have b0: "b \<noteq> 0" by auto
  from h a0 have A: "pA = ?x + sizeof_header_t" "heap_inv s1 [?x]"
      "hdrs s1 ?x = \<lparr>s_size = a, s_is_free = False, s_next = NULL\<rparr>"
    by (blast intro: malloc_first_block)+
  from A(3) have live: "\<not> s_is_free (hdrs s1 ?x)" by simp
  from h b0 have B: "heap_inv s2 [?x, ?y]" "s_size (hdrs s2 ?x) = s_size (hdrs s1 ?x)"
    using malloc_second_block [OF A(2) live] by blast+
  have d: "distinct [?x, ?y]" using B(1) by (rule heap_inv_distinct)
  let ?s3 = "s2\<lparr>hdrs := (hdrs s2)(?x := (hdrs s2 ?x)\<lparr>s_is_free := True\<rparr>)\<rparr>"
  from d have "free (?x + sizeof_header_t) s2 = Some ?s3"
    by (intro free_mark_eq [OF B(1)]) simp_all
  with h A(1) have s3: "s3 = ?s3" by simp
  have i3: "heap_inv ?s3 [?x, ?y]" using B(1) by (rule heap_inv_flag)
  then have cw3: "chain_wf ?s3 [?x, ?y]" by (rule heap_inv_chain)
  from ca A(3) B(2) have ff: "first_fit (hdrs ?s3) c [?x, ?y] = ?x" by simp
  from cw3 have "?x \<noteq> NULL" by (simp add: chain_wf_def)
  with malloc_reuse_eq [OF cw3 c0 ff] A(1) s3
  show "\<exists>s4. malloc c s3 = Some (pA, s4) \<and> brk s4 = brk s3"
    by (simp add: malloc_reuse_def)
qed

lemma malloc_first_fit_witness:
  "chain_wf st_mix [4096, 4128, 4160, 4216] \<and> (16 :: 64 word) \<noteq> 0
   \<and> [4096, 4128, 4160, 4216] = [4096, 4128] @ 4160 # [4216 :: 64 word]
   \<and> s_is_free (hdrs st_mix 4160) \<and> 16 \<le> s_size (hdrs st_mix 4160)
   \<and> \<not> s_is_free (hdrs st_mix 4096) \<and> \<not> 16 \<le> s_size (hdrs st_mix 4128)
   \<and> (\<exists>s'. malloc 16 st_mix = Some (4184, s') \<and> s_size (hdrs s' 4160) = 32
         \<and> brk s' = brk st_mix)
   \<and> head st_empty = NULL \<and> tail st_empty = NULL \<and> brk st_empty \<noteq> NULL
   \<and> brk st_empty \<le> brk_limit st_empty \<and> uint (brk_limit st_empty) < 2 ^ 63
   \<and> valid_size 8 \<and> (8 :: 64 word) \<le> 8
   \<and> malloc 8 st_empty = Some (4120, st_A) \<and> (4120 :: 64 word) \<noteq> NULL
   \<and> malloc 8 st_A = Some (4152, st_AB) \<and> (4152 :: 64 word) \<noteq> NULL
   \<and> free 4120 st_AB = Some st_fB
   \<and> (\<exists>s4. malloc 8 st_fB = Some (4120, s4) \<and> brk s4 = brk st_fB)"
proof -
  have c: "chain_wf st_mix [4096, 4128, 4160, 4216]"
    by (simp add: chain_wf_def st_mix_def)
  have a: "s_is_free (hdrs st_mix 4160)" "16 \<le> s_size (hdrs st_mix 4160)"
    "\<not> s_is_free (hdrs st_mix 4096)" "\<not> 16 \<le> s_size (hdrs st_mix 4128)"
    "s_size (hdrs st_mix 4160) = 32"
    by (simp_all add: st_mix_def)
  have p: "(4160 :: 64 word) + sizeof_header_t = 4184" by (simp add: sizeof_header_t_def)
  have e: "head st_empty = NULL" "tail st_empty = NULL" "brk st_empty \<noteq> NULL"
    "brk st_empty \<le> brk_limit st_empty" "uint (brk_limit st_empty) < 2 ^ 63"
    by (simp_all add: st_empty_def)
  note t = malloc_first_fit [of st_mix "[4096, 4128, 4160, 4216]" 16 "[4096, 4128]" 4160
      "[4216]" st_empty 8 8 8 4120 st_A 4152 st_AB st_fB]
  from t c a p
  have 1: "\<exists>s'. malloc 16 st_mix = Some (4184, s') \<and> s_size (hdrs s' 4160) = 32
      \<and> brk s' = brk st_mix"
    by auto
  from t e valid_size_8 step_empty_A step_A_AB step_AB_fB
  have 2: "\<exists>s4. malloc 8 st_fB = Some (4120, s4) \<and> brk s4 = brk st_fB"
    by simp
  from 1 2 c a e valid_size_8 step_empty_A step_A_AB step_AB_fB
  show ?thesis by simp
qed

text \<open>
  C2.  Allocation is first-fit with no splitting; in particular, on an empty heap, after
  \<open>malloc(a)\<close>, \<open>malloc(b)\<close>, \<open>free\<close> of the first pointer and \<open>malloc(c)\<close> with \<open>c \<le> a \<le> b\<close>, the
  last call returns the first pointer again rather than growing the region.  The code
  does not do this for \<open>a = 8\<close>, \<open>b = 2\<^sup>6\<^sup>4 - 24\<close>, \<open>c = 8\<close>, because \<^verbatim>\<open>malloc\<close> does not check the
  sum \<^verbatim>\<open>sizeof(header_t) + size\<close>.  The second call asks \<^verbatim>\<open>sbrk\<close> for 0 bytes and returns the
  pointer 4152 with the break still at 4128, where the payload of the first block ends.
  \<open>free(4120)\<close> therefore takes the shrink path: it unlinks the tail, which is the second
  block, moves the break down to 4096 and leaves the first block marked as allocated.
  The last \<open>malloc(8)\<close> finds no free block: the scan returns null, and the region grows,
  the break going from 4096 to 4128.  (The scan reads the header at 4096, which lies at
  the break; here the memory above the break stays readable.)
\<close>

theorem first_fit_scenario_wrapping_size:
  "(8 :: 64 word) \<le> 8 \<and> (8 :: 64 word) \<le> 18446744073709551592
   \<and> head st_empty = NULL \<and> tail st_empty = NULL
   \<and> malloc 8 st_empty = Some (4120, st_A)
   \<and> malloc 18446744073709551592 st_A = Some (4152, st_wrap)
   \<and> free 4120 st_wrap = Some st_wrap_freed
   \<and> head st_wrap_freed = 4096 \<and> tail st_wrap_freed = 4096
   \<and> \<not> s_is_free (hdrs st_wrap_freed 4096) \<and> brk st_wrap_freed = 4096
   \<and> get_free_block 8 st_wrap_freed = Some NULL
   \<and> malloc 8 st_wrap_freed = Some (4120, st_wrap_grown)
   \<and> brk st_wrap_grown = 4128 \<and> brk st_wrap_grown \<noteq> brk st_wrap_freed"
  using step_empty_A step_A_wrap step_wrap_freed step_wrap_grown
  by (simp add: run_simps st_empty_def st_wrap_freed_def st_wrap_grown_def)

subsection \<open>C3: which block shrinks the region when freed\<close>

text \<open>
  The spec's wording, "the most-recently allocated block", does not hold.  From the empty
  heap: \<open>A = malloc(8)\<close>, \<open>B = malloc(8)\<close>, \<open>free(A)\<close>, \<open>C = malloc(8)\<close>.  \<open>C\<close> is the block of
  \<open>A\<close>, reused, and it is the most recently allocated block; \<open>free(C)\<close> leaves the break
  where it was.  Freeing \<open>B\<close> afterwards, which is not the most recently allocated
  block, moves the break.
\<close>

theorem free_most_recent_counterexample:
  "malloc 8 st_empty = Some (4120, st_A) \<and> malloc 8 st_A = Some (4152, st_AB)
   \<and> free 4120 st_AB = Some st_fB \<and> malloc 8 st_fB = Some (4120, st_AB)
   \<and> free 4120 st_AB = Some st_fB \<and> brk st_fB = brk st_AB
   \<and> free 4152 st_fB = Some st_f \<and> brk st_f \<noteq> brk st_fB"
  using step_empty_A step_A_AB step_AB_fB step_fB_AB step_fB_f
  by (simp add: st_AB_def st_fB_def st_f_def)

text \<open>
  C3, amended.  In every state reached from an empty heap by calls whose sizes \<open>n\<close>
  satisfy \<open>24 + n < 2\<^sup>6\<^sup>3\<close> (the states of \<open>reachable\<close>), freeing the tail block of the chain,
  and only that block, shrinks the region: the break moves down by the 24 header bytes
  plus the block's size, to the block's header address.  Freeing any other block of the
  chain sets its flag and changes nothing else, the break included.  States reached
  through a size with \<open>24 + n \<ge> 2\<^sup>6\<^sup>3\<close> are left out.
\<close>

theorem free_shrinks_iff_tail:
  assumes "reachable s" and "chain_wf s xs" and "x \<in> set xs"
  shows "\<exists>s'. free (x + sizeof_header_t) s = Some s'
     \<and> (x = tail s \<longrightarrow>
          brk s' = x \<and> uint (brk s') = uint (brk s) - (24 + uint (s_size (hdrs s x))))
     \<and> (x \<noteq> tail s \<longrightarrow>
          s' = s\<lparr>hdrs := (hdrs s)(x := (hdrs s x)\<lparr>s_is_free := True\<rparr>)\<rparr> \<and> brk s' = brk s)"
proof -
  from assms(1,2) have inv: "heap_inv s xs" by (rule reachable_chain)
  from assms(3) have ne: "xs \<noteq> []" by auto
  with assms(2) have t: "tail s = last xs" by (simp add: chain_wf_def)
  show ?thesis
  proof (cases "x = last xs")
    case True
    from ne True have xs: "butlast xs @ [x] = xs" by simp
    from heap_inv_tiles [OF inv ne] have "tiles (hdrs s) (uint (hd xs)) (butlast xs @ [x]) (uint (brk s))"
      by (simp only: xs)
    then have "block_end (hdrs s) x = uint (brk s)" by (simp add: tiles_snoc)
    then have "uint x = uint (brk s) - (24 + uint (s_size (hdrs s x)))"
      by (simp add: block_end_def)
    with free_tail_chain [OF inv assms(3) True] t True show ?thesis by auto
  next
    case False
    with free_mark_eq [OF inv assms(3)] t show ?thesis by simp
  qed
qed

theorem free_shrinks_iff_tail_witness:
  "reachable st_AB \<and> chain_wf st_AB [4096, 4128] \<and> (4128 :: 64 word) \<in> set [4096, 4128]
   \<and> (4096 :: 64 word) \<in> set [4096, 4128] \<and> tail st_AB = 4128
   \<and> (\<exists>s'. free (4128 + sizeof_header_t) st_AB = Some s' \<and> brk s' = 4128
         \<and> uint (brk s') = uint (brk st_AB) - 32)
   \<and> (\<exists>s'. free (4096 + sizeof_header_t) st_AB = Some s' \<and> brk s' = brk st_AB)"
proof -
  have a: "(4128 :: 64 word) \<in> set [4096, 4128]" and b: "(4096 :: 64 word) \<in> set [4096, 4128]"
    by simp_all
  have t: "tail st_AB = 4128" "s_size (hdrs st_AB 4128) = 8" by (simp_all add: st_AB_def)
  from free_shrinks_iff_tail [OF reachable_st_AB chain_wf_st_AB a]
    free_shrinks_iff_tail [OF reachable_st_AB chain_wf_st_AB b]
    reachable_st_AB chain_wf_st_AB t
  show ?thesis by auto
qed

subsection \<open>C4: allocate, then free at once\<close>

lemma round_trip_grow:
  assumes inv: "heap_inv s xs" and n: "n \<noteq> 0"
    and nf: "first_fit (hdrs s) n xs = NULL"
    and ok: "\<not> sbrk_fails (sizeof_header_t + n) s"
  shows "\<exists>s'. round_trip n s = Some s' \<and> head s' = head s \<and> tail s' = tail s
     \<and> brk s' = brk s \<and> chain_wf s' xs \<and> mem s' = mem s"
proof -
  let ?b = "brk s"
  let ?t = "sizeof_header_t + n"
  let ?new = "\<lparr>s_size = n, s_is_free = False, s_next = NULL\<rparr>"
  let ?s1 = "s\<lparr>brk := ?b + ?t\<rparr>"
  let ?s2 = "malloc_link ?b n ?s1"
  have cw: "chain_wf s xs" using inv by (rule heap_inv_chain)
  have le: "?b \<le> brk_limit s" and lim: "uint (brk_limit s) < 2 ^ 63" and b0: "?b \<noteq> NULL"
    using inv by (simp_all add: heap_inv_def)
  note lb = low_break_facts [OF le lim]
  have m: "malloc n s = Some (?b + sizeof_header_t, ?s2)"
    using n nf ok lb(1) by (simp add: malloc_def get_free_block_chain [OF cw] sbrk_ok_eq)
  have hdr: "?b + sizeof_header_t - sizeof_header_t = ?b" by simp
  have shrink: "0 - sizeof_header_t - n = 0 - ?t" by simp
  have nin: "?b \<notin> set xs" using heap_inv_mem(4) [OF inv] by blast
  have "\<exists>s4. free (?b + sizeof_header_t) ?s2 = Some s4 \<and> head s4 = head s \<and> tail s4 = tail s
      \<and> brk s4 = ?b \<and> chain_wf s4 xs \<and> mem s4 = mem s"
  proof (cases "xs = []")
    case True
    with chain_wf_NULL_iff [OF cw] have ht: "head s = NULL" "tail s = NULL" by simp_all
    let ?s2' = "?s1\<lparr>hdrs := (hdrs s)(?b := ?new), head := ?b, tail := ?b\<rparr>"
    let ?s3 = "?s2'\<lparr>head := NULL, tail := NULL\<rparr>"
    from ht have s2: "?s2 = ?s2'" by (simp add: malloc_link_empty)
    have sz: "s_size (hdrs ?s2' ?b) = n" by simp
    have cond: "?b + sizeof_header_t + s_size (hdrs ?s2' ?b) = brk ?s2'"
      by (simp add: add.assoc)
    have ul: "free_unlink ?s2' = Some ?s3" by (simp add: free_unlink_def)
    have sz3: "s_size (hdrs ?s3 ?b) = n" by simp
    have bk: "snd (sbrk (0 - ?t) ?s3) = ?s3\<lparr>brk := ?b\<rparr>"
      using ok le lim by (rule sbrk_back) simp_all
    have "free (?b + sizeof_header_t) ?s2' = Some (?s3\<lparr>brk := ?b\<rparr>)"
      unfolding free_def Let_def
      by (simp only: lb(2) hdr sbrk_zero prod.case cond ul option.case sz3 shrink bk
          simp_thms if_True if_False)
    with s2 ht True show ?thesis by (simp add: chain_wf_def)
  next
    case False
    let ?l = "last xs"
    let ?h1 = "(hdrs s)(?b := ?new)"
    let ?h2 = "?h1(?l := (?h1 ?l)\<lparr>s_next := ?b\<rparr>)"
    let ?s2' = "?s1\<lparr>hdrs := ?h2, tail := ?b\<rparr>"
    let ?h3 = "(hdrs ?s2')(?l := (hdrs ?s2' ?l)\<lparr>s_next := NULL\<rparr>)"
    let ?s3 = "?s2'\<lparr>hdrs := ?h3, tail := ?l\<rparr>"
    from False chain_wf_NULL_iff [OF cw] have ht: "head s \<noteq> NULL" "tail s \<noteq> NULL"
      by simp_all
    from False cw have t: "tail s = ?l" by (simp add: chain_wf_def)
    from False cw have h: "head s = hd xs" by (simp add: chain_wf_head)
    from ht t have s2: "?s2 = ?s2'" by (simp add: malloc_link_nonempty)
    from False nin have lb': "?l \<noteq> ?b" by (metis last_in_set)
    from False nin h have hb: "head s \<noteq> ?b" by (metis hd_in_set)
    have d: "distinct (xs @ [?b])" using heap_inv_distinct [OF inv] nin by simp
    have keep: "s_next (?h2 x) = s_next (hdrs s x)" if "x \<in> set (butlast xs)" for x
    proof -
      from that have "x \<in> set xs" by (rule in_set_butlastD)
      with nin have "x \<noteq> ?b" by auto
      moreover from that heap_inv_distinct [OF inv] have "x \<noteq> ?l"
        by (rule distinct_last_butlast [rotated])
      ultimately show ?thesis by simp
    qed
    have p0: "path (hdrs s) (head s) xs" using cw by (simp add: chain_wf_def)
    have p: "path ?h2 (head s) (xs @ [?b])"
    proof (rule path_snoc [OF p0 False d b0])
      show "s_next (?h2 ?l) = ?b" by simp
      show "s_next (?h2 ?b) = NULL" using lb' by simp
      show "\<And>x. x \<in> set (butlast xs) \<Longrightarrow> s_next (?h2 x) = s_next (hdrs s x)"
        by (rule keep)
    qed
    have sz: "s_size (hdrs ?s2' ?b) = n" using lb' by simp
    have cond: "?b + sizeof_header_t + s_size (hdrs ?s2' ?b) = brk ?s2'"
      using lb' by (simp add: add.assoc)
    have "free_loop ?s2' (head s) = Some ?s3"
    proof (rule free_loop_path)
      show "path (hdrs ?s2') (head s) (xs @ [?b])" using p by simp
      show "xs \<noteq> []" by (rule False)
      show "distinct (xs @ [?b])" by (rule d)
      show "tail ?s2' = ?b" by simp
    qed
    moreover have "head ?s2' = head s" "tail ?s2' = ?b" by simp_all
    ultimately have ul: "free_unlink ?s2' = Some ?s3"
      using hb by (simp only: free_unlink_def if_False)
    have sz3: "s_size (hdrs ?s3 ?b) = n" using lb' by simp
    have bk: "snd (sbrk (0 - ?t) ?s3) = ?s3\<lparr>brk := ?b\<rparr>"
      using ok le lim by (rule sbrk_back) simp_all
    have fr: "free (?b + sizeof_header_t) ?s2' = Some (?s3\<lparr>brk := ?b\<rparr>)"
      unfolding free_def Let_def
      by (simp only: lb(2) hdr sbrk_zero prod.case cond ul option.case sz3 shrink bk
          simp_thms if_True if_False)
    have "s_next (?h3 x) = s_next (hdrs s x)" if "x \<in> set xs" for x
    proof (cases "x = ?l")
      case True
      with path_last_next [OF p0 False] show ?thesis by simp
    next
      case False
      with that nin show ?thesis by auto
    qed
    then have "path ?h3 (head s) xs = path (hdrs s) (head s) xs"
      by (rule path_cong)
    with p0 have "path ?h3 (head s) xs" by simp
    with fr s2 t False show ?thesis by (simp add: chain_wf_def)
  qed
  with m show ?thesis by (simp add: round_trip_def)
qed

text \<open>
  The spec's round trip, worded for every allocator state, does not hold in a reachable
  state whose tail block is free.  From the empty heap: \<open>A = malloc(8)\<close>, \<open>B = malloc(8)\<close>, \<open>free(A)\<close> marks
  \<open>A\<close> free, \<open>free(B)\<close> releases \<open>B\<close> and leaves the free block \<open>A\<close> as head and tail.
  Now \<open>malloc(8)\<close> reuses \<open>A\<close>, and the \<open>free\<close> that follows finds \<open>A\<close> at the break and
  releases it: \<^verbatim>\<open>head\<close> and \<^verbatim>\<open>tail\<close> were 4096 before the two calls and are null after them.
\<close>

theorem round_trip_counterexample:
  "malloc 8 st_empty = Some (4120, st_A) \<and> malloc 8 st_A = Some (4152, st_AB)
   \<and> free 4120 st_AB = Some st_fB \<and> free 4152 st_fB = Some st_f
   \<and> malloc 8 st_f = Some (4120, st_A') \<and> free 4120 st_A' = Some st_empty'
   \<and> round_trip 8 st_f = Some st_empty'
   \<and> head st_f = 4096 \<and> tail st_f = 4096
   \<and> head st_empty' = NULL \<and> tail st_empty' = NULL"
  using step_empty_A step_A_AB step_AB_fB step_fB_f step_f_A' step_A'_empty'
  by (simp add: round_trip_def st_f_def st_empty'_def)

text \<open>
  C4, amended.  For every size \<open>n > 0\<close> with \<open>24 + n < 2\<^sup>6\<^sup>3\<close> and every state reached from an
  empty heap by calls with such sizes (the states of \<open>reachable\<close>) in which \<^verbatim>\<open>malloc(n)\<close>
  does not reuse the tail block (the scan does not return \<^verbatim>\<open>tail\<close>), \<^verbatim>\<open>malloc(n)\<close>
  immediately followed by \<^verbatim>\<open>free\<close> of the returned pointer returns, and leaves \<^verbatim>\<open>head\<close>,
  \<^verbatim>\<open>tail\<close>, the chain and the break as they were before the \<^verbatim>\<open>malloc\<close>; on an empty heap
  the break is restored fully.  Sizes with \<open>24 + n \<ge> 2\<^sup>6\<^sup>3\<close> are left out.
\<close>

theorem round_trip_restores:
  assumes "reachable s" and "chain_wf s xs" and "n \<noteq> 0" and "valid_size n"
    and "tail s \<noteq> NULL \<longrightarrow> get_free_block n s \<noteq> Some (tail s)"
  shows "\<exists>s'. round_trip n s = Some s' \<and> head s' = head s \<and> tail s' = tail s
     \<and> brk s' = brk s \<and> chain_wf s' xs"
proof -
  from assms(1,2) have inv: "heap_inv s xs" by (rule reachable_chain)
  let ?f = "first_fit (hdrs s) n xs"
  have g: "get_free_block n s = Some ?f" using assms(2) by (rule get_free_block_chain)
  consider (reuse) "?f \<noteq> NULL"
    | (fail) "?f = NULL" "sbrk_fails (sizeof_header_t + n) s"
    | (grow) "?f = NULL" "\<not> sbrk_fails (sizeof_header_t + n) s"
    by blast
  then show ?thesis
  proof cases
    case reuse
    then have fx: "?f \<in> set xs" by (rule first_fit_mem)
    then have "xs \<noteq> []" by auto
    with assms(2) chain_wf_NULL_iff [OF assms(2)]
    have "tail s = last xs" "tail s \<noteq> NULL" by (simp_all add: chain_wf_def)
    with assms(5) g have nl: "?f \<noteq> last xs" by auto
    let ?s1 = "malloc_reuse ?f s"
    have m: "malloc n s = Some (?f + sizeof_header_t, ?s1)"
      using assms(2,3) refl reuse by (rule malloc_reuse_eq)
    have i1: "heap_inv ?s1 xs" using inv by (rule heap_inv_reuse)
    let ?s2 = "?s1\<lparr>hdrs := (hdrs ?s1)(?f := (hdrs ?s1 ?f)\<lparr>s_is_free := True\<rparr>)\<rparr>"
    have f: "free (?f + sizeof_header_t) ?s1 = Some ?s2"
      using i1 fx nl by (rule free_mark_eq)
    have "heap_inv ?s2 xs" using i1 by (rule heap_inv_flag)
    then have "chain_wf ?s2 xs" by (rule heap_inv_chain)
    moreover have "head ?s2 = head s" "tail ?s2 = tail s" "brk ?s2 = brk s"
      by (simp_all add: malloc_reuse_def)
    ultimately show ?thesis using m f by (simp add: round_trip_def)
  next
    case fail
    with malloc_fail_eq [OF assms(2,3)] assms(2) show ?thesis
      by (simp add: round_trip_def)
  next
    case grow
    with round_trip_grow [OF inv assms(3)] show ?thesis by blast
  qed
qed

theorem round_trip_restores_witness:
  "reachable st_fB \<and> chain_wf st_fB [4096, 4128] \<and> (8 :: 64 word) \<noteq> 0 \<and> valid_size 8
   \<and> tail st_fB \<noteq> NULL \<and> get_free_block 8 st_fB \<noteq> Some (tail st_fB)
   \<and> (\<exists>s'. round_trip 8 st_fB = Some s' \<and> head s' = head st_fB \<and> tail s' = tail st_fB
         \<and> brk s' = brk st_fB)
   \<and> reachable st_AB \<and> chain_wf st_AB [4096, 4128]
   \<and> get_free_block 8 st_AB \<noteq> Some (tail st_AB)
   \<and> (\<exists>s'. round_trip 8 st_AB = Some s' \<and> head s' = head st_AB \<and> tail s' = tail st_AB
         \<and> brk s' = brk st_AB)"
proof -
  have a: "get_free_block 8 st_fB \<noteq> Some (tail st_fB)" "tail st_fB \<noteq> NULL"
    by (simp_all add: run_simps st_fB_def)
  have b: "get_free_block 8 st_AB \<noteq> Some (tail st_AB)"
    by (simp add: run_simps st_AB_def)
  have n: "(8 :: 64 word) \<noteq> 0" by simp
  from round_trip_restores [OF reachable_st_fB chain_wf_st_fB n valid_size_8]
    round_trip_restores [OF reachable_st_AB chain_wf_st_AB n valid_size_8]
    a b reachable_st_fB chain_wf_st_fB reachable_st_AB chain_wf_st_AB valid_size_8
  show ?thesis by auto
qed

subsection \<open>C5: \<^verbatim>\<open>realloc\<close> keeps the content\<close>

lemma realloc_copies:
  assumes r: "realloc p n s = Some (q, s')" and p: "p \<noteq> NULL" and q: "q \<noteq> NULL"
    and lt: "s_size (hdrs s (p - sizeof_header_t)) < n"
    and nb: "p - sizeof_header_t \<noteq> brk s"
  shows "mem s' a =
     (if a - q < s_size (hdrs s (p - sizeof_header_t)) then mem s (p + (a - q)) else mem s a)"
proof -
  let ?x = "p - sizeof_header_t"
  from lt have n0: "n \<noteq> 0" by auto
  from lt have nle: "\<not> n \<le> s_size (hdrs s ?x)" by simp
  from r p n0 nle obtain s1 where m: "malloc n s = Some (q, s1)"
    and f: "free p (memcpy q p (s_size (hdrs s1 ?x)) s1) = Some s'"
    using q by (auto simp: realloc_def Let_def split: option.splits if_splits)
  from m nb have "s_size (hdrs s1 ?x) = s_size (hdrs s ?x)" by (rule malloc_keeps_size)
  moreover from m have "mem s1 = mem s" by (rule malloc_mem)
  moreover from f have "mem s' = mem (memcpy q p (s_size (hdrs s1 ?x)) s1)" by (rule free_mem)
  ultimately show ?thesis by (simp add: memcpy_def)
qed

text \<open>
  For a size \<open>n\<close> with \<open>24 + n < 2\<^sup>6\<^sup>3\<close>, \<^verbatim>\<open>realloc\<close> keeps the content.  In a state reached
  by calls with such sizes let \<open>x\<close> be an allocated block of the chain, of recorded size
  \<open>size\<close>, with payload pointer \<open>p = x + 24\<close>, and let \<open>n > size\<close>.  \<^verbatim>\<open>malloc(n)\<close> returns, and
  \<^verbatim>\<open>realloc(p, n)\<close> returns what it returned: with the null pointer the state is
  unchanged; with a pointer \<open>q\<close>, \<open>size\<close> bytes are copied from \<open>p\<close> to \<open>q\<close> in the state
  that \<^verbatim>\<open>malloc\<close> left, \<open>free(p)\<close> runs on the result, and \<open>q\<close> is returned.  Then the first
  \<open>size\<close> bytes at \<open>q\<close> are the bytes that were at \<open>p\<close>, whatever they were, every byte
  outside them is as before, \<open>q\<close> is the payload of a block of the chain that is
  allocated, at least \<open>n\<close> bytes large and different from \<open>x\<close>, and the old block is marked
  free or has left the chain.
\<close>

lemma realloc_preserves_content:
  assumes "reachable s" and "chain_wf s xs" and "x \<in> set xs"
    and "\<not> s_is_free (hdrs s x)" and "s_size (hdrs s x) < n" and "valid_size n"
  shows "\<exists>q s1. malloc n s = Some (q, s1)
     \<and> (q = NULL \<longrightarrow> s1 = s \<and> realloc (x + sizeof_header_t) n s = Some (NULL, s))
     \<and> (q \<noteq> NULL \<longrightarrow>
          (\<exists>s'. free (x + sizeof_header_t)
                   (memcpy q (x + sizeof_header_t) (s_size (hdrs s x)) s1) = Some s'
             \<and> realloc (x + sizeof_header_t) n s = Some (q, s')
             \<and> (\<forall>i. i < s_size (hdrs s x) \<longrightarrow>
                    mem s' (q + i) = mem s (x + sizeof_header_t + i))
             \<and> (\<forall>a. \<not> a - q < s_size (hdrs s x) \<longrightarrow> mem s' a = mem s a)
             \<and> q \<noteq> x + sizeof_header_t
             \<and> (\<exists>xs'. chain_wf s' xs'
                   \<and> (x \<in> set xs' \<longrightarrow> s_is_free (hdrs s' x))
                   \<and> q - sizeof_header_t \<in> set xs'
                   \<and> \<not> s_is_free (hdrs s' (q - sizeof_header_t))
                   \<and> n \<le> s_size (hdrs s' (q - sizeof_header_t)))))"
proof -
  let ?p = "x + sizeof_header_t"
  let ?old = "s_size (hdrs s x)"
  from assms(1,2) have inv: "heap_inv s xs" by (rule reachable_chain)
  note pf = payload_facts [OF inv assms(3)]
  have nb: "x \<noteq> brk s" using heap_inv_mem(4) [OF inv assms(3)] by simp
  from assms(5) have n0: "n \<noteq> 0" by auto
  from assms(5) have nle: "\<not> n \<le> ?old" by simp
  from malloc_effect [OF inv assms(6) n0] show ?thesis
  proof (elim disjE exE conjE)
    assume m: "malloc n s = Some (NULL, s)"
    with pf n0 nle have "realloc ?p n s = Some (NULL, s)"
      by (simp add: realloc_def)
    with m show ?thesis by simp
  next
    fix g s1 xs1
    assume m: "malloc n s = Some (g + sizeof_header_t, s1)"
      and q0: "g + sizeof_header_t \<noteq> NULL"
      and i1: "heap_inv s1 xs1" and g1: "g \<in> set xs1" and sub: "set xs \<subseteq> set xs1"
      and gl: "\<not> s_is_free (hdrs s1 g)" and gs: "n \<le> s_size (hdrs s1 g)"
      and ow: "\<forall>y\<in>set xs. \<not> s_is_free (hdrs s y) \<longrightarrow> y \<noteq> g"
    let ?q = "g + sizeof_header_t"
    from sub assms(3) have x1: "x \<in> set xs1" by auto
    from ow assms(3,4) have xg: "x \<noteq> g" by auto
    from m nb have keep: "s_size (hdrs s1 x) = ?old" by (rule malloc_keeps_size)
    let ?s2 = "memcpy ?q ?p ?old s1"
    have i2: "heap_inv ?s2 xs1" using i1 by (simp add: memcpy_def)
    have h2: "hdrs ?s2 = hdrs s1" by (simp add: memcpy_def)
    from free_effect [OF i2 x1] obtain s3 xs3
      where f: "free ?p ?s2 = Some s3" and i3: "heap_inv s3 xs3"
        and sub3: "set xs1 - {x} \<subseteq> set xs3"
        and xf: "x \<in> set xs3 \<longrightarrow> s_is_free (hdrs s3 x)"
        and fl: "\<forall>y. y \<noteq> x \<longrightarrow> s_is_free (hdrs s3 y) = s_is_free (hdrs ?s2 y)"
        and sz3: "\<forall>y. s_size (hdrs s3 y) = s_size (hdrs ?s2 y)"
      by blast
    have r: "realloc ?p n s = Some (?q, s3)"
      using pf n0 nle m q0 f keep by (simp add: realloc_def)
    have lt: "s_size (hdrs s (?p - sizeof_header_t)) < n" using assms(5) by simp
    have nb': "?p - sizeof_header_t \<noteq> brk s" using nb by simp
    note c = realloc_copies [OF r pf(1) q0 lt nb']
    have c1: "\<forall>i. i < ?old \<longrightarrow> mem s3 (?q + i) = mem s (?p + i)"
      by (simp add: c)
    have c2: "\<forall>a. \<not> a - ?q < ?old \<longrightarrow> mem s3 a = mem s a"
      by (simp add: c)
    from xg have c3: "?q \<noteq> ?p" by simp
    from g1 xg sub3 have g3: "g \<in> set xs3" by auto
    from xg fl gl h2 have gl3: "\<not> s_is_free (hdrs s3 g)" by simp
    from sz3 gs h2 have gs3: "n \<le> s_size (hdrs s3 g)" by simp
    have "chain_wf s3 xs3" using i3 by (rule heap_inv_chain)
    with xf g3 gl3 gs3 have c4: "\<exists>xs'. chain_wf s3 xs'
        \<and> (x \<in> set xs' \<longrightarrow> s_is_free (hdrs s3 x))
        \<and> ?q - sizeof_header_t \<in> set xs'
        \<and> \<not> s_is_free (hdrs s3 (?q - sizeof_header_t))
        \<and> n \<le> s_size (hdrs s3 (?q - sizeof_header_t))"
      by (intro exI [of _ xs3]) simp
    from m q0 f r c1 c2 c3 c4 show ?thesis by blast
  qed
qed

lemma realloc_preserves_content_witness:
  "reachable st_A_hi \<and> chain_wf st_A_hi [4096] \<and> (4096 :: 64 word) \<in> set [4096]
   \<and> \<not> s_is_free (hdrs st_A_hi 4096) \<and> s_size (hdrs st_A_hi 4096) < 16 \<and> valid_size 16
   \<and> mem st_A_hi 4120 = 104 \<and> mem st_A_hi 4121 = 105 \<and> mem st_A_hi 4122 = 33
   \<and> (\<exists>s1 s'. malloc 16 st_A_hi = Some (4152, s1)
         \<and> free 4120 (memcpy 4152 4120 8 s1) = Some s'
         \<and> realloc 4120 16 st_A_hi = Some (4152, s')
         \<and> mem s' 4152 = 104 \<and> mem s' 4153 = 105 \<and> mem s' 4154 = 33
         \<and> s_is_free (hdrs s' 4096))"
proof -
  have c: "chain_wf st_A_hi [4096]" by (simp add: chain_wf_def st_A_hi_def st_A_def)
  have x: "(4096 :: 64 word) \<in> set [4096]" by simp
  have l: "\<not> s_is_free (hdrs st_A_hi 4096)" and z: "s_size (hdrs st_A_hi 4096) < 16"
    and z8: "s_size (hdrs st_A_hi 4096) = 8"
    by (simp_all add: st_A_hi_def st_A_def)
  have v: "valid_size 16" by (simp add: valid_size_def)
  have b: "mem st_A_hi 4120 = 104" "mem st_A_hi 4121 = 105" "mem st_A_hi 4122 = 33"
    by (simp_all add: st_A_hi_def)
  have p: "(4096 :: 64 word) + sizeof_header_t = 4120" by (simp add: sizeof_header_t_def)
  have "\<exists>s1. malloc 16 st_A_hi = Some (4152, s1)"
    by (simp add: run_simps st_A_hi_def st_A_def)
  then obtain s1 where m: "malloc 16 st_A_hi = Some (4152, s1)" ..
  from realloc_preserves_content [OF reachable_st_A_hi c x l z v] m
  obtain s' where f: "free 4120 (memcpy 4152 4120 8 s1) = Some s'"
    and r: "realloc 4120 16 st_A_hi = Some (4152, s')"
    and k: "\<forall>i. i < 8 \<longrightarrow> mem s' (4152 + i) = mem st_A_hi (4120 + i)"
    and w: "\<exists>xs'. chain_wf s' xs' \<and> (4096 \<in> set xs' \<longrightarrow> s_is_free (hdrs s' 4096))
        \<and> 4152 - sizeof_header_t \<in> set xs'"
    by (auto simp: p z8)
  from k [rule_format, of 0] k [rule_format, of 1] k [rule_format, of 2] b
  have mm: "mem s' 4152 = 104" "mem s' 4153 = 105" "mem s' 4154 = 33" by simp_all
  from w obtain xs' where "chain_wf s' xs'"
    "4096 \<in> set xs' \<longrightarrow> s_is_free (hdrs s' 4096)"
    "4152 - sizeof_header_t \<in> set xs'"
    by auto
  moreover have "(4152 :: 64 word) - sizeof_header_t = 4128" by (simp add: sizeof_header_t_def)
  ultimately have "chain_wf s' xs'" "4096 \<in> set xs' \<longrightarrow> s_is_free (hdrs s' 4096)"
    "4128 \<in> set xs'" by simp_all
  moreover have "head s' = 4096"
    using r by (auto simp: realloc_def memcpy_def run_simps st_A_hi_def st_A_def)
  ultimately have "s_is_free (hdrs s' 4096)"
    by (cases xs') (auto simp: chain_wf_def)
  with mm m f r reachable_st_A_hi c x l z v b show ?thesis by blast
qed

text \<open>
  C5.  Resize preserves content: for every larger size, \<^verbatim>\<open>realloc\<close>, when it returns a
  pointer, returns one whose first bytes are those of the old block, which is then
  deallocated.  The code does not do this for the size \<open>2\<^sup>6\<^sup>4 - 24\<close>, because \<^verbatim>\<open>malloc\<close> does
  not check the sum \<^verbatim>\<open>sizeof(header_t) + size\<close>.  In the state \<open>st_A_hi\<close> the block at 4096
  holds 8 bytes, the first three being \<^verbatim>\<open>"hi!"\<close>, and the break is 4128.
  \<open>realloc(4120, 2\<^sup>6\<^sup>4 - 24)\<close> calls \<^verbatim>\<open>malloc\<close>, which asks \<^verbatim>\<open>sbrk\<close> for 0 bytes and returns 4152,
  a pointer above the break; 8 bytes are copied there; \<open>free(4120)\<close> finds the old payload
  ending at the break, unlinks the tail, which is the new block, and moves the break
  down to 4096.  \<^verbatim>\<open>realloc\<close> returns 4152: the payload of a block that is no longer in the
  chain, 56 bytes above the break.  The old block is still the head of the chain and
  still marked as allocated, and its memory has been released.
\<close>

theorem realloc_wrapping_size_dangling:
  "s_size (hdrs st_A_hi 4096) = 8 \<and> \<not> s_is_free (hdrs st_A_hi 4096)
   \<and> s_size (hdrs st_A_hi 4096) < 18446744073709551592
   \<and> chain_wf st_A_hi [4096] \<and> brk st_A_hi = 4128
   \<and> mem st_A_hi 4120 = 104 \<and> mem st_A_hi 4121 = 105 \<and> mem st_A_hi 4122 = 33
   \<and> realloc 4120 18446744073709551592 st_A_hi = Some (4152, st_hi_realloc)
   \<and> brk st_hi_realloc = 4096 \<and> chain_wf st_hi_realloc [4096]
   \<and> \<not> s_is_free (hdrs st_hi_realloc 4096)"
  using step_hi_realloc
  by (simp add: chain_wf_def st_A_hi_def st_A_def st_hi_realloc_def hdrs_none_def)

subsection \<open>C6: \<^verbatim>\<open>calloc\<close> rejects exactly the overflowing products\<close>

lemma inverse_division_int:
  fixes a b :: int
  assumes "0 < a" and "0 \<le> b"
  shows "(a * b) mod 2 ^ 64 div a \<noteq> b \<longleftrightarrow> 2 ^ 64 \<le> a * b"
proof (cases "a * b < 2 ^ 64")
  case True
  moreover from assms have "0 \<le> a * b" by simp
  ultimately have "(a * b) mod 2 ^ 64 = a * b" by simp
  with assms True show ?thesis by simp
next
  case False
  have "(a * b) mod 2 ^ 64 \<le> a * b - 2 ^ 64"
  proof -
    have "(a * b) mod 2 ^ 64 = (a * b - 2 ^ 64) mod 2 ^ 64"
      by (simp add: mod_diff_right_eq [symmetric])
    also from False have "\<dots> \<le> a * b - 2 ^ 64"
      by (intro zmod_le_nonneg_dividend) simp
    finally show ?thesis .
  qed
  also have "\<dots> < a * b" by simp
  finally have lt: "(a * b) mod 2 ^ 64 < a * b" .
  let ?x = "(a * b) mod 2 ^ 64"
  have "?x div a < b"
  proof (rule ccontr)
    assume "\<not> ?x div a < b"
    then have "b \<le> ?x div a" by simp
    with assms(1) have "a * b \<le> a * (?x div a)" by (simp add: mult_left_mono)
    moreover have "a * (?x div a) + ?x mod a = ?x" by (rule mult_div_mod_eq)
    moreover from assms(1) have "0 \<le> ?x mod a" by (rule pos_mod_sign)
    ultimately show False using lt by linarith
  qed
  with False show ?thesis by simp
qed

lemma inverse_division_check:
  fixes num nsize :: "64 word"
  assumes "num \<noteq> 0"
  shows "nsize \<noteq> (num * nsize) div num
     \<longleftrightarrow> uint nsize \<noteq> (uint num * uint nsize) mod 2 ^ 64 div uint num"
proof -
  have "nsize \<noteq> (num * nsize) div num \<longleftrightarrow> uint nsize \<noteq> uint ((num * nsize) div num)"
    by (simp add: word_uint_eq_iff)
  also have "uint ((num * nsize) div num) = (uint num * uint nsize) mod 2 ^ 64 div uint num"
    by (simp add: uint_div uint_word_ariths)
  finally show ?thesis .
qed

text \<open>
  C6.  \<^verbatim>\<open>calloc\<close> is the spec's zero-allocate: with both arguments non-zero it returns the
  null pointer and the unchanged state, whatever \<^verbatim>\<open>malloc\<close> would do (also where it would
  not return), exactly when the product overflows 64 bits, and calls \<^verbatim>\<open>malloc\<close> with the
  product otherwise.  The code's test \<^verbatim>\<open>nsize != size / num\<close> is the inverse-division check
  \<open>element_size \<noteq> (count \<times> element_size mod 2\<^sup>6\<^sup>4) / count\<close>, and that check holds exactly
  when the product is at least \<open>2\<^sup>6\<^sup>4\<close>.  With a zero argument the result is the null
  pointer and the unchanged state as well.
\<close>

theorem calloc_overflow_rejection:
  "calloc num nsize s = zero_allocate num nsize s
   \<and> (num \<noteq> 0 \<longrightarrow>
        (nsize \<noteq> (num * nsize) div num
           \<longleftrightarrow> uint nsize \<noteq> (uint num * uint nsize) mod 2 ^ 64 div uint num)
        \<and> (uint nsize \<noteq> (uint num * uint nsize) mod 2 ^ 64 div uint num
           \<longleftrightarrow> 2 ^ 64 \<le> uint num * uint nsize))
   \<and> (num = 0 \<or> nsize = 0 \<or> 2 ^ 64 \<le> uint num * uint nsize
        \<longrightarrow> calloc num nsize s = Some (NULL, s))"
proof -
  have chk: "uint nsize \<noteq> (uint num * uint nsize) mod 2 ^ 64 div uint num
      \<longleftrightarrow> 2 ^ 64 \<le> uint num * uint nsize" if "num \<noteq> 0"
  proof -
    from that have "uint num \<noteq> 0" by (simp add: uint_0_iff)
    moreover have "0 \<le> uint num" by simp
    ultimately have "0 < uint num" by linarith
    moreover have "0 \<le> uint nsize" by simp
    ultimately show ?thesis
      using inverse_division_int [of "uint num" "uint nsize"] by metis
  qed
  have eq: "calloc num nsize s = zero_allocate num nsize s"
  proof (cases "num = 0")
    case True
    then show ?thesis by (simp add: calloc_def zero_allocate_def)
  next
    case False
    from inverse_division_check [OF False] chk [OF False]
    have "nsize \<noteq> (num * nsize) div num \<longleftrightarrow> 2 ^ 64 \<le> uint num * uint nsize"
      by simp
    then show ?thesis
      by (simp add: calloc_def zero_allocate_def Let_def)
  qed
  moreover have "calloc num nsize s = Some (NULL, s)"
    if "num = 0 \<or> nsize = 0 \<or> 2 ^ 64 \<le> uint num * uint nsize"
    using that unfolding eq by (auto simp: zero_allocate_def)
  ultimately show ?thesis
    using inverse_division_check chk by blast
qed

theorem calloc_overflow_rejection_witness:
  "(2 ^ 63 + 4 :: 64 word) \<noteq> 0
   \<and> 2 ^ 64 \<le> uint (2 ^ 63 + 4 :: 64 word) * uint (2 :: 64 word)
   \<and> (2 :: 64 word) \<noteq> ((2 ^ 63 + 4) * 2) div (2 ^ 63 + 4)
   \<and> calloc (2 ^ 63 + 4) 2 st_empty = Some (NULL, st_empty)
   \<and> (2 ^ 63 + 4) * 2 = (8 :: 64 word)
   \<and> malloc 8 st_empty = Some (4120, st_A)"
proof -
  have a: "(2 ^ 63 + 4 :: 64 word) \<noteq> 0" by simp
  have b: "2 ^ 64 \<le> uint (2 ^ 63 + 4 :: 64 word) * uint (2 :: 64 word)" by simp
  have c: "(2 ^ 63 + 4) * 2 = (8 :: 64 word)" by simp
  note t = calloc_overflow_rejection [of "2 ^ 63 + 4" 2 st_empty]
  from t a b have d: "(2 :: 64 word) \<noteq> ((2 ^ 63 + 4) * 2) div (2 ^ 63 + 4)"
    by blast
  from t b have e: "calloc (2 ^ 63 + 4) 2 st_empty = Some (NULL, st_empty)"
    by blast
  from a b c d e step_empty_A show ?thesis by blast
qed

subsection \<open>C7: a failed growth leaves the state as it was\<close>

text \<open>
  C7.  For every size \<open>n > 0\<close> for which the growth request for \<open>24 + n\<close> bytes fails: when
  the scan finds no suitable free block, \<^verbatim>\<open>sbrk\<close> returns the failure sentinel, \<^verbatim>\<open>malloc\<close>
  returns the null pointer, and the state after the call is the state before it: \<^verbatim>\<open>head\<close>,
  \<^verbatim>\<open>tail\<close>, every header, the payload bytes and the break are unchanged.  On a well-formed
  chain the scan finds no suitable free block exactly as the words say: when no block of
  the chain is free and large enough.
\<close>

theorem malloc_out_of_memory_atomic:
  assumes "n \<noteq> 0" and "sbrk_fails (sizeof_header_t + n) s"
  shows "(get_free_block n s = Some NULL \<longrightarrow>
            sbrk (sizeof_header_t + n) s = (- 1, s) \<and> malloc n s = Some (NULL, s))
     \<and> (chain_wf s xs \<and> (\<forall>x\<in>set xs. \<not> (s_is_free (hdrs s x) \<and> n \<le> s_size (hdrs s x))) \<longrightarrow>
            get_free_block n s = Some NULL \<and> malloc n s = Some (NULL, s))"
proof (intro conjI impI)
  assume g: "get_free_block n s = Some NULL"
  show "sbrk (sizeof_header_t + n) s = (- 1, s)"
    using assms(2) by (rule sbrk_fails_eq)
  with assms(1) g show "malloc n s = Some (NULL, s)"
    by (simp add: malloc_def)
next
  assume h: "chain_wf s xs \<and> (\<forall>x\<in>set xs. \<not> (s_is_free (hdrs s x) \<and> n \<le> s_size (hdrs s x)))"
  then have cw: "chain_wf s xs" and nf: "first_fit (hdrs s) n xs = NULL"
    by (simp_all add: first_fit_none)
  from get_free_block_chain [OF cw, of n] nf show "get_free_block n s = Some NULL"
    by simp
  from cw assms(1) nf assms(2) show "malloc n s = Some (NULL, s)"
    by (rule malloc_fail_eq)
qed

theorem malloc_out_of_memory_atomic_witness:
  "(5000 :: 64 word) \<noteq> 0 \<and> sbrk_fails (sizeof_header_t + 5000) st_A
   \<and> chain_wf st_A [4096] \<and> \<not> s_is_free (hdrs st_A 4096)
   \<and> get_free_block 5000 st_A = Some NULL
   \<and> sbrk (sizeof_header_t + 5000) st_A = (- 1, st_A)
   \<and> malloc 5000 st_A = Some (NULL, st_A)"
proof -
  have a: "(5000 :: 64 word) \<noteq> 0" by simp
  have b: "sbrk_fails (sizeof_header_t + 5000) st_A"
    by (simp add: sbrk_fails_def sizeof_header_t_def st_A_def)
  have c: "\<forall>x\<in>set [4096]. \<not> (s_is_free (hdrs st_A x) \<and> 5000 \<le> s_size (hdrs st_A x))"
    by (simp add: st_A_def)
  have d: "\<not> s_is_free (hdrs st_A 4096)" by (simp add: st_A_def)
  from malloc_out_of_memory_atomic [OF a b, of "[4096]"] chain_wf_st_A c d a b
  show ?thesis by simp
qed

subsection \<open>C8: \<^verbatim>\<open>realloc\<close> with a null pointer or a zero size\<close>

text \<open>
  C8.  With a null pointer or with a new size of zero, \<^verbatim>\<open>realloc\<close> is \<^verbatim>\<open>malloc\<close> of the new
  size.  So for every pointer \<^verbatim>\<open>realloc(p, 0)\<close> returns the null pointer and the unchanged
  state.  In particular, for an allocated block of a reachable state its flag stays
  false and the chain and the break stay as they were, where \<^verbatim>\<open>free\<close> of the same pointer
  would have set the flag or moved the break: the block is not freed.
\<close>

theorem realloc_null_or_zero:
  "(block = NULL \<or> sz = 0 \<longrightarrow> realloc block sz s = malloc sz s)
   \<and> realloc block 0 s = Some (NULL, s)
   \<and> (reachable s \<and> chain_wf s xs \<and> x \<in> set xs \<and> \<not> s_is_free (hdrs s x) \<longrightarrow>
        (\<exists>s'. realloc (x + sizeof_header_t) 0 s = Some (NULL, s')
           \<and> \<not> s_is_free (hdrs s' x) \<and> chain_wf s' xs \<and> brk s' = brk s)
        \<and> (\<exists>s'. free (x + sizeof_header_t) s = Some s'
           \<and> (s_is_free (hdrs s' x) \<or> brk s' \<noteq> brk s)))"
proof (intro conjI impI)
  show "realloc block 0 s = Some (NULL, s)" by (simp add: realloc_def)
  assume "block = NULL \<or> sz = 0"
  then show "realloc block sz s = malloc sz s" by (simp add: realloc_def)
next
  assume h: "reachable s \<and> chain_wf s xs \<and> x \<in> set xs \<and> \<not> s_is_free (hdrs s x)"
  then show "\<exists>s'. realloc (x + sizeof_header_t) 0 s = Some (NULL, s')
      \<and> \<not> s_is_free (hdrs s' x) \<and> chain_wf s' xs \<and> brk s' = brk s"
    by (simp add: realloc_def)
next
  assume h: "reachable s \<and> chain_wf s xs \<and> x \<in> set xs \<and> \<not> s_is_free (hdrs s x)"
  then have inv: "heap_inv s xs" and x: "x \<in> set xs" by (simp_all add: reachable_chain)
  show "\<exists>s'. free (x + sizeof_header_t) s = Some s'
      \<and> (s_is_free (hdrs s' x) \<or> brk s' \<noteq> brk s)"
  proof (cases "x = last xs")
    case True
    from heap_inv_mem(4) [OF inv x] free_tail_chain [OF inv x True] show ?thesis by auto
  next
    case False
    with free_mark_eq [OF inv x] show ?thesis by simp
  qed
qed

theorem realloc_null_or_zero_witness:
  "realloc NULL 8 st_A = malloc 8 st_A \<and> malloc 8 st_A = Some (4152, st_AB)
   \<and> realloc 4120 0 st_A = malloc 0 st_A
   \<and> realloc 4120 0 st_A = Some (NULL, st_A)
   \<and> reachable st_A \<and> chain_wf st_A [4096] \<and> (4096 :: 64 word) \<in> set [4096]
   \<and> \<not> s_is_free (hdrs st_A 4096)
   \<and> (\<exists>s'. free (4096 + sizeof_header_t) st_A = Some s'
         \<and> (s_is_free (hdrs s' 4096) \<or> brk s' \<noteq> brk st_A))"
proof -
  have l: "\<not> s_is_free (hdrs st_A 4096)" by (simp add: st_A_def)
  have x: "(4096 :: 64 word) \<in> set [4096]" by simp
  from realloc_null_or_zero [of NULL 8 st_A "[4096]" 4096]
    realloc_null_or_zero [of 4120 0 st_A "[4096]" 4096]
    step_A_AB reachable_st_A chain_wf_st_A l x
  show ?thesis by simp
qed

subsection \<open>C9: the block that ends at the break, and the tail\<close>

text \<open>
  In every state reached from an empty heap by calls whose sizes \<open>n\<close> satisfy
  \<open>24 + n < 2\<^sup>6\<^sup>3\<close>, for every block \<open>x\<close> of the chain: the test of \<^verbatim>\<open>free\<close>, payload address
  plus recorded size equals the break, holds exactly when \<open>x\<close> is the tail, the last block
  in chain order.  There the shrink path frees the tail: the unlinking leaves the chain
  without \<open>x\<close> and with every other block in place, and the break moves to the header
  address of \<open>x\<close>.
\<close>

lemma shrink_path_frees_tail:
  assumes "reachable s" and "chain_wf s xs" and "x \<in> set xs"
  shows "tail s = last xs
     \<and> (x + sizeof_header_t + s_size (hdrs s x) = brk s \<longleftrightarrow> x = tail s)
     \<and> (x = tail s \<longrightarrow>
          (\<exists>s'. free (x + sizeof_header_t) s = Some s' \<and> chain_wf s' (butlast xs)
             \<and> xs = butlast xs @ [x] \<and> x \<notin> set (butlast xs) \<and> brk s' = x))"
proof -
  from assms(1,2) have inv: "heap_inv s xs" by (rule reachable_chain)
  from assms(3) have ne: "xs \<noteq> []" by auto
  with assms(2) have t: "tail s = last xs" by (simp add: chain_wf_def)
  have d: "distinct xs" using inv by (rule heap_inv_distinct)
  have "\<exists>s'. free (x + sizeof_header_t) s = Some s' \<and> chain_wf s' (butlast xs)
      \<and> xs = butlast xs @ [x] \<and> x \<notin> set (butlast xs) \<and> brk s' = x" if l: "x = last xs"
  proof -
    from ne l have xs: "xs = butlast xs @ [x]" by simp
    with d have "x \<notin> set (butlast xs)" by (metis distinct_last_butlast l)
    with free_tail_chain [OF inv assms(3) l] xs show ?thesis
      by (blast dest: heap_inv_chain)
  qed
  with t payload_facts(3) [OF inv assms(3)] show ?thesis by simp
qed

lemma shrink_path_frees_tail_witness:
  "reachable st_AB \<and> chain_wf st_AB [4096, 4128] \<and> (4128 :: 64 word) \<in> set [4096, 4128]
   \<and> tail st_AB = 4128
   \<and> 4128 + sizeof_header_t + s_size (hdrs st_AB 4128) = brk st_AB
   \<and> 4096 + sizeof_header_t + s_size (hdrs st_AB 4096) \<noteq> brk st_AB
   \<and> (\<exists>s'. free (4128 + sizeof_header_t) st_AB = Some s' \<and> chain_wf s' [4096] \<and> brk s' = 4128)"
proof -
  have a: "(4128 :: 64 word) \<in> set [4096, 4128]" and b: "(4096 :: 64 word) \<in> set [4096, 4128]"
    by simp_all
  have t: "tail st_AB = 4128" by (simp add: st_AB_def)
  from shrink_path_frees_tail [OF reachable_st_AB chain_wf_st_AB a]
    shrink_path_frees_tail [OF reachable_st_AB chain_wf_st_AB b]
    reachable_st_AB chain_wf_st_AB t
  show ?thesis by simp
qed

text \<open>
  C9.  Whenever \<^verbatim>\<open>free\<close> takes the shrink path the freed block is the tail of the chain, so
  that unlinking the tail removes exactly the freed block: the block that ends at the
  break is the last block in chain order.  The code does not keep this, because \<^verbatim>\<open>malloc\<close>
  does not check the sum \<^verbatim>\<open>sizeof(header_t) + size\<close>.  From the empty heap, \<open>A = malloc(8)\<close>,
  \<open>B = malloc(8)\<close> and then \<open>malloc(2\<^sup>6\<^sup>4 - 56)\<close>: the sum is \<open>-32\<close> as a signed increment, so
  \<^verbatim>\<open>sbrk\<close> moves the break from 4160 down to 4128 and returns 4160, where the new header is
  written and linked as the tail.  The chain is 4096, 4128, 4160 and it is well formed,
  but the block whose payload ends at the break 4128 is \<open>A\<close>, the first one.  \<open>free(A)\<close>
  takes the shrink path: it unlinks the tail 4160, an allocated block, and moves the
  break down to 4096; \<open>A\<close> stays in the chain, at the break, marked as allocated.
\<close>

theorem shrink_path_wrapping_size_not_tail:
  "malloc 8 st_empty = Some (4120, st_A) \<and> malloc 8 st_A = Some (4152, st_AB)
   \<and> malloc 18446744073709551560 st_AB = Some (4184, st_neg)
   \<and> chain_wf st_neg [4096, 4128, 4160] \<and> tail st_neg = 4160 \<and> brk st_neg = 4128
   \<and> 4120 + s_size (hdrs st_neg (4120 - sizeof_header_t)) = brk st_neg
   \<and> 4120 - sizeof_header_t = (4096 :: 64 word) \<and> (4096 :: 64 word) \<noteq> tail st_neg
   \<and> free 4120 st_neg = Some st_neg_freed
   \<and> chain_wf st_neg_freed [4096, 4128] \<and> brk st_neg_freed = 4096
   \<and> \<not> s_is_free (hdrs st_neg_freed 4096)"
  using step_empty_A step_A_AB step_AB_neg step_neg_freed
  by (simp add: chain_wf_def sizeof_header_t_def st_neg_def st_neg_freed_def hdrs_none_def)

subsection \<open>C10: reusing a free block changes its flag and nothing else\<close>

text \<open>
  C10.  When the scan of \<^verbatim>\<open>malloc(n)\<close>, \<open>n > 0\<close>, returns a block \<open>h\<close>, the call returns the
  payload pointer of \<open>h\<close> and the only change of the state is that the flag of \<open>h\<close> is now
  false: the size and the link of \<open>h\<close>, every other header, \<^verbatim>\<open>head\<close>, \<^verbatim>\<open>tail\<close>, the payload
  bytes, the break and its limit are as before.
\<close>

theorem malloc_reuse_frame:
  assumes "n \<noteq> 0" and "get_free_block n s = Some h" and "h \<noteq> NULL"
  shows "\<exists>s'. malloc n s = Some (h + sizeof_header_t, s')
     \<and> \<not> s_is_free (hdrs s' h)
     \<and> s_size (hdrs s' h) = s_size (hdrs s h)
     \<and> s_next (hdrs s' h) = s_next (hdrs s h)
     \<and> (\<forall>a. a \<noteq> h \<longrightarrow> hdrs s' a = hdrs s a)
     \<and> head s' = head s \<and> tail s' = tail s \<and> mem s' = mem s
     \<and> brk s' = brk s \<and> brk_limit s' = brk_limit s
     \<and> s' = s\<lparr>hdrs := (hdrs s)(h := (hdrs s h)\<lparr>s_is_free := False\<rparr>)\<rparr>"
  using assms by (simp add: malloc_def malloc_reuse_def)

theorem malloc_reuse_frame_witness:
  "(8 :: 64 word) \<noteq> 0 \<and> get_free_block 8 st_fB = Some 4096 \<and> (4096 :: 64 word) \<noteq> NULL
   \<and> malloc 8 st_fB = Some (4096 + sizeof_header_t, st_AB)
   \<and> brk st_AB = brk st_fB \<and> tail st_AB = tail st_fB
   \<and> hdrs st_AB 4128 = hdrs st_fB 4128"
proof -
  have a: "get_free_block 8 st_fB = Some 4096"
    by (simp add: run_simps st_fB_def)
  from malloc_reuse_frame [of 8 st_fB 4096] a
  obtain s' where m: "malloc 8 st_fB = Some (4096 + sizeof_header_t, s')"
    and f: "brk s' = brk st_fB" "tail s' = tail st_fB" "hdrs s' 4128 = hdrs st_fB 4128"
    by auto
  from m step_fB_AB have "s' = st_AB" by (simp add: sizeof_header_t_def)
  with a m f show ?thesis by simp
qed

end
